theory Spec2Isabelle
  imports Main "HOL-Library.Word"
begin

unbundle bit_operations_syntax

section \<open>Values of the platform\<close>

text \<open>
  A Buffer is a sequence of bytes. A JavaScript string is a sequence of 16-bit code
  units (UTF-16), so it may hold a surrogate that has no partner.
\<close>

type_synonym byte = "8 word"
type_synonym buffer = "byte list"
type_synonym code_unit = "16 word"
type_synonym jsstring = "code_unit list"

text \<open>String literals of the source, written with ASCII characters.\<close>

definition js :: "string \<Rightarrow> jsstring" where
  "js s = map (\<lambda>c. of_nat (of_char c)) s"

text \<open>
  The exceptions of the source. \<open>FormatError\<close> is the
  \<^verbatim>\<open>new Error('Invalid encrypted text format')\<close> thrown by \<^verbatim>\<open>decrypt\<close>; \<open>CryptoError\<close>
  stands for the errors thrown by \<^verbatim>\<open>node:crypto\<close> (invalid key length, invalid
  initialization vector, wrong final block length, bad decrypt); \<open>ENOENT\<close> and \<open>IOError\<close>
  are the file-system errors; \<open>SyntaxError\<close> is thrown by \<^verbatim>\<open>JSON.parse\<close> and
  \<open>TypeError\<close> by a call of a value that is not a function or by a property access on
  \<^verbatim>\<open>null\<close>.
\<close>

datatype js_error = FormatError | CryptoError | ENOENT | IOError | SyntaxError | TypeError

section \<open>Hexadecimal text: \<^verbatim>\<open>buf.toString('hex')\<close> and \<^verbatim>\<open>Buffer.from(s, 'hex')\<close>\<close>

definition hex_digit :: "nat \<Rightarrow> code_unit" where
  "hex_digit n = (if n < 10 then of_nat (48 + n) else of_nat (87 + n))"

definition hex_of_byte :: "byte \<Rightarrow> jsstring" where
  "hex_of_byte b = [hex_digit (unat b div 16), hex_digit (unat b mod 16)]"

definition to_hex :: "buffer \<Rightarrow> jsstring" where
  "to_hex bs = concat (map hex_of_byte bs)"

definition hex_val :: "code_unit \<Rightarrow> nat option" where
  "hex_val c =
     (let n = unat c in
      if 48 \<le> n \<and> n \<le> 57 then Some (n - 48)
      else if 97 \<le> n \<and> n \<le> 102 then Some (n - 87)
      else if 65 \<le> n \<and> n \<le> 70 then Some (n - 55)
      else None)"

text \<open>
  The lookup of \<^verbatim>\<open>Buffer.from(s, 'hex')\<close>: each code unit of the string is cast to 8 bits
  before it is read as a hexadecimal digit, so only its low byte counts.
\<close>

definition unhex :: "code_unit \<Rightarrow> nat option" where
  "unhex c = hex_val (of_nat (unat c mod 256))"

text \<open>
  Decoding never throws: it stops at the first pair that is not two hexadecimal digits
  and drops a trailing single character.
\<close>

fun from_hex :: "jsstring \<Rightarrow> buffer" where
  "from_hex (a # b # rest) =
     (case unhex a of
        None \<Rightarrow> []
      | Some x \<Rightarrow>
          (case unhex b of
             None \<Rightarrow> []
           | Some y \<Rightarrow> of_nat (16 * x + y) # from_hex rest))"
| "from_hex _ = []"

definition lower_hex :: "code_unit \<Rightarrow> bool" where
  "lower_hex c = (let n = unat c in (48 \<le> n \<and> n \<le> 57) \<or> (97 \<le> n \<and> n \<le> 102))"

section \<open>UTF-8: \<^verbatim>\<open>'utf8'\<close> as input encoding and \<^verbatim>\<open>buf.toString('utf8')\<close>\<close>

definition is_high :: "code_unit \<Rightarrow> bool" where
  "is_high u = (55296 \<le> unat u \<and> unat u \<le> 56319)"

definition is_low :: "code_unit \<Rightarrow> bool" where
  "is_low u = (56320 \<le> unat u \<and> unat u \<le> 57343)"

definition is_surrogate :: "code_unit \<Rightarrow> bool" where
  "is_surrogate u = (55296 \<le> unat u \<and> unat u \<le> 57343)"

text \<open>A string is well formed when every surrogate is half of a pair.\<close>

fun wellformed :: "jsstring \<Rightarrow> bool" where
  "wellformed [] = True"
| "wellformed [u] = (\<not> is_surrogate u)"
| "wellformed (u # v # rest) =
     (if is_high u \<and> is_low v then wellformed rest
      else \<not> is_surrogate u \<and> wellformed (v # rest))"

definition enc_cp :: "nat \<Rightarrow> buffer" where
  "enc_cp c =
     (if c < 128 then [of_nat c]
      else if c < 2048 then [of_nat (192 + c div 64), of_nat (128 + c mod 64)]
      else if c < 65536 then
        [of_nat (224 + c div 4096), of_nat (128 + c div 64 mod 64), of_nat (128 + c mod 64)]
      else
        [of_nat (240 + c div 262144), of_nat (128 + c div 4096 mod 64),
         of_nat (128 + c div 64 mod 64), of_nat (128 + c mod 64)])"

definition unit_cp :: "code_unit \<Rightarrow> nat" where
  "unit_cp u = (if is_surrogate u then 65533 else unat u)"

definition pair_cp :: "code_unit \<Rightarrow> code_unit \<Rightarrow> nat" where
  "pair_cp u v = 65536 + (unat u - 55296) * 1024 + (unat v - 56320)"

text \<open>
  Encoding a string: a surrogate pair is one code point of four bytes, and a surrogate
  without partner is replaced by U+FFFD.
\<close>

fun utf8_encode :: "jsstring \<Rightarrow> buffer" where
  "utf8_encode [] = []"
| "utf8_encode [u] = enc_cp (unit_cp u)"
| "utf8_encode (u # v # rest) =
     (if is_high u \<and> is_low v then enc_cp (pair_cp u v) @ utf8_encode rest
      else enc_cp (unit_cp u) @ utf8_encode (v # rest))"

definition cp_units :: "nat \<Rightarrow> jsstring" where
  "cp_units c =
     (if c < 65536 then [of_nat c]
      else [of_nat (55296 + (c - 65536) div 1024), of_nat (56320 + (c - 65536) mod 1024)])"

definition cont :: "byte \<Rightarrow> bool" where
  "cont b = (128 \<le> unat b \<and> unat b \<le> 191)"

text \<open>The range of the second byte after the lead byte \<open>b0\<close> of a 3- or 4-byte sequence.\<close>

definition second_ok :: "byte \<Rightarrow> byte \<Rightarrow> bool" where
  "second_ok b0 b1 =
     (let n0 = unat b0; n1 = unat b1 in
      if n0 = 224 then 160 \<le> n1 \<and> n1 \<le> 191
      else if n0 = 237 then 128 \<le> n1 \<and> n1 \<le> 159
      else if n0 = 240 then 144 \<le> n1 \<and> n1 \<le> 191
      else if n0 = 244 then 128 \<le> n1 \<and> n1 \<le> 143
      else 128 \<le> n1 \<and> n1 \<le> 191)"

definition replacement :: code_unit where
  "replacement = 65533"

text \<open>
  Decoding never throws: every maximal ill-formed part becomes one U+FFFD and decoding
  goes on at the byte that broke the sequence.
\<close>

fun utf8_decode :: "buffer \<Rightarrow> jsstring" where
  "utf8_decode [] = []"
| "utf8_decode (b0 # bs) =
     (let n0 = unat b0 in
      if n0 < 128 then of_nat n0 # utf8_decode bs
      else if 194 \<le> n0 \<and> n0 \<le> 223 then
        (case bs of
           [] \<Rightarrow> [replacement]
         | b1 # bs1 \<Rightarrow>
             if cont b1 then of_nat ((n0 - 192) * 64 + (unat b1 - 128)) # utf8_decode bs1
             else replacement # utf8_decode bs)
      else if 224 \<le> n0 \<and> n0 \<le> 239 then
        (case bs of
           [] \<Rightarrow> [replacement]
         | b1 # bs1 \<Rightarrow>
             if second_ok b0 b1 then
               (case bs1 of
                  [] \<Rightarrow> [replacement]
                | b2 # bs2 \<Rightarrow>
                    if cont b2 then
                      of_nat ((n0 - 224) * 4096 + (unat b1 - 128) * 64 + (unat b2 - 128))
                        # utf8_decode bs2
                    else replacement # utf8_decode bs1)
             else replacement # utf8_decode bs)
      else if 240 \<le> n0 \<and> n0 \<le> 244 then
        (case bs of
           [] \<Rightarrow> [replacement]
         | b1 # bs1 \<Rightarrow>
             if second_ok b0 b1 then
               (case bs1 of
                  [] \<Rightarrow> [replacement]
                | b2 # bs2 \<Rightarrow>
                    if cont b2 then
                      (case bs2 of
                         [] \<Rightarrow> [replacement]
                       | b3 # bs3 \<Rightarrow>
                           if cont b3 then
                             cp_units ((n0 - 240) * 262144 + (unat b1 - 128) * 4096
                                        + (unat b2 - 128) * 64 + (unat b3 - 128))
                               @ utf8_decode bs3
                           else replacement # utf8_decode bs2)
                    else replacement # utf8_decode bs1)
             else replacement # utf8_decode bs)
      else replacement # utf8_decode bs)"

section \<open>\<^verbatim>\<open>String.prototype.split\<close> and array destructuring\<close>

definition colon :: code_unit where
  "colon = 58"

text \<open>\<^verbatim>\<open>s.split(c)\<close> for a separator of one character: never an empty array.\<close>

fun split_on :: "code_unit \<Rightarrow> jsstring \<Rightarrow> jsstring list" where
  "split_on c [] = [[]]"
| "split_on c (x # xs) =
     (if x = c then [] # split_on c xs
      else (case split_on c xs of
              [] \<Rightarrow> [[x]]
            | p # ps \<Rightarrow> (x # p) # ps))"

text \<open>An array element by index; \<open>None\<close> is \<^verbatim>\<open>undefined\<close>.\<close>

fun elem :: "'a list \<Rightarrow> nat \<Rightarrow> 'a option" where
  "elem [] i = None"
| "elem (x # xs) 0 = Some x"
| "elem (x # xs) (Suc i) = elem xs i"

text \<open>\<^verbatim>\<open>!s\<close> for a string that may be \<^verbatim>\<open>undefined\<close>: true for \<^verbatim>\<open>undefined\<close> and for \<^verbatim>\<open>''\<close>.\<close>

fun falsy :: "jsstring option \<Rightarrow> bool" where
  "falsy None = True"
| "falsy (Some s) = (s = [])"

section \<open>Values read by \<^verbatim>\<open>JSON.parse\<close>\<close>

text \<open>
  A number is kept as the text of its literal: no property below depends on the double
  it denotes. An object is the list of its own properties.
\<close>

datatype json =
    JNull
  | JBool bool
  | JNum jsstring
  | JStr jsstring
  | JArr "json list"
  | JObj "(jsstring \<times> json) list"

section \<open>The platform\<close>

text \<open>
  The functions of Node.js that the services call and that are not code of the
  repository are parameters of the model:
  \<^item> \<open>scryptSync password salt keylen\<close> is \<^verbatim>\<open>crypto.scryptSync\<close>;
  \<^item> \<open>aes_encrypt_block key block\<close> and \<open>aes_decrypt_block key block\<close> are the AES-256
    block cipher behind \<^verbatim>\<open>'aes-256-cbc'\<close>;
  \<^item> \<open>JSON_stringify v\<close> is \<^verbatim>\<open>JSON.stringify(v, null, 2)\<close> and \<open>JSON_parse\<close> is
    \<^verbatim>\<open>JSON.parse\<close>, with \<open>None\<close> for a SyntaxError;
  \<^item> \<open>Date_other v\<close> is the time value of \<^verbatim>\<open>new Date(v)\<close> for the arguments whose
    conversion is left to the engine (numbers, arrays, objects, and strings that are not
    in the format of \<^verbatim>\<open>toISOString\<close>), with \<open>None\<close> for an invalid date.
\<close>

record platform =
  scryptSync :: "jsstring \<Rightarrow> jsstring \<Rightarrow> nat \<Rightarrow> buffer"
  aes_encrypt_block :: "buffer \<Rightarrow> buffer \<Rightarrow> buffer"
  aes_decrypt_block :: "buffer \<Rightarrow> buffer \<Rightarrow> buffer"
  JSON_stringify :: "json \<Rightarrow> jsstring"
  JSON_parse :: "jsstring \<Rightarrow> json option"
  Date_other :: "json \<Rightarrow> int option"

text \<open>What is assumed of scrypt: the derived key has the length that was asked for.\<close>

definition scrypt_ok :: "platform \<Rightarrow> bool" where
  "scrypt_ok L = (\<forall>p s n. length (scryptSync L p s n) = n)"

text \<open>
  What is assumed of AES-256: under a key of 32 bytes a block of 16 bytes is encrypted
  to a block of 16 bytes, and decrypting it gives the block back.
\<close>

definition aes_ok :: "platform \<Rightarrow> bool" where
  "aes_ok L =
     (\<forall>k b. length k = 32 \<and> length b = 16 \<longrightarrow>
        length (aes_encrypt_block L k b) = 16
        \<and> aes_decrypt_block L k (aes_encrypt_block L k b) = b)"

section \<open>\<^verbatim>\<open>'aes-256-cbc'\<close>: CBC mode with PKCS#7 padding\<close>

definition xor_block :: "buffer \<Rightarrow> buffer \<Rightarrow> buffer" where
  "xor_block a b = map2 (XOR) a b"

function cbc_encrypt :: "(buffer \<Rightarrow> buffer) \<Rightarrow> buffer \<Rightarrow> buffer \<Rightarrow> buffer" where
  "cbc_encrypt E prev data =
     (if data = [] then []
      else (let c = E (xor_block (take 16 data) prev)
            in c @ cbc_encrypt E c (drop 16 data)))"
  by pat_completeness auto
termination
  by (relation "measure (\<lambda>(E, prev, data). length data)") auto

function cbc_decrypt :: "(buffer \<Rightarrow> buffer) \<Rightarrow> buffer \<Rightarrow> buffer \<Rightarrow> buffer" where
  "cbc_decrypt D prev data =
     (if data = [] then []
      else (let c = take 16 data
            in xor_block (D c) prev @ cbc_decrypt D c (drop 16 data)))"
  by pat_completeness auto
termination
  by (relation "measure (\<lambda>(D, prev, data). length data)") auto

definition pkcs7_pad :: "buffer \<Rightarrow> buffer" where
  "pkcs7_pad data = (let n = 16 - length data mod 16 in data @ replicate n (of_nat n))"

definition pkcs7_unpad :: "buffer \<Rightarrow> buffer option" where
  "pkcs7_unpad data =
     (if data = [] then None
      else (let n = unat (last data) in
            if n = 0 \<or> 16 < n \<or> length data < n then None
            else if drop (length data - n) data = replicate n (last data)
              then Some (take (length data - n) data)
            else None))"

text \<open>
  \<^verbatim>\<open>createCipheriv('aes-256-cbc', key, iv)\<close> followed by \<^verbatim>\<open>update\<close> and \<^verbatim>\<open>final\<close>.
  The constructor throws when the key is not 32 bytes or the IV is not 16 bytes.
\<close>

definition cipher :: "platform \<Rightarrow> buffer \<Rightarrow> buffer \<Rightarrow> buffer \<Rightarrow> js_error + buffer" where
  "cipher L key iv data =
     (if length key \<noteq> 32 \<or> length iv \<noteq> 16 then Inl CryptoError
      else Inr (cbc_encrypt (aes_encrypt_block L key) iv (pkcs7_pad data)))"

text \<open>
  \<^verbatim>\<open>createDecipheriv('aes-256-cbc', key, iv)\<close> followed by \<^verbatim>\<open>update\<close> and \<^verbatim>\<open>final\<close>.
  \<^verbatim>\<open>final\<close> throws when the input is empty or not a whole number of blocks, and when
  the padding of the last block is not valid.
\<close>

definition decipher :: "platform \<Rightarrow> buffer \<Rightarrow> buffer \<Rightarrow> buffer \<Rightarrow> js_error + buffer" where
  "decipher L key iv data =
     (if length key \<noteq> 32 \<or> length iv \<noteq> 16 then Inl CryptoError
      else if data = [] \<or> length data mod 16 \<noteq> 0 then Inl CryptoError
      else (case pkcs7_unpad (cbc_decrypt (aes_decrypt_block L key) iv data) of
              None \<Rightarrow> Inl CryptoError
            | Some p \<Rightarrow> Inr p))"

section \<open>CryptoService (crypto.service.ts)\<close>

definition IV_LENGTH :: nat where
  "IV_LENGTH = 16"

definition KEY_LENGTH :: nat where
  "KEY_LENGTH = 32"

record CryptoService =
  encryptionKey :: jsstring

definition default_passphrase :: jsstring where
  "default_passphrase = js ''default-encryption-key-32-char-long!''"

text \<open>
  The constructor: \<^verbatim>\<open>configService.get('ENCRYPTION_KEY') || 'default-...'\<close>. The argument
  is the configured value, \<open>None\<close> when the variable is not set.
\<close>

definition new_CryptoService :: "jsstring option \<Rightarrow> CryptoService" where
  "new_CryptoService cfg =
     \<lparr>encryptionKey = (if falsy cfg then default_passphrase else the cfg)\<rparr>"

definition getKey :: "platform \<Rightarrow> CryptoService \<Rightarrow> buffer" where
  "getKey L svc = scryptSync L (encryptionKey svc) (js ''salt'') KEY_LENGTH"

text \<open>
  \<^verbatim>\<open>encrypt(text)\<close>. The argument \<open>iv\<close> is the result of
  \<^verbatim>\<open>crypto.randomBytes(IV_LENGTH)\<close>.
\<close>

definition encrypt :: "platform \<Rightarrow> CryptoService \<Rightarrow> buffer \<Rightarrow> jsstring \<Rightarrow> js_error + jsstring" where
  "encrypt L svc iv text =
     (let key = getKey L svc in
      case cipher L key iv (utf8_encode text) of
        Inl e \<Rightarrow> Inl e
      | Inr encrypted \<Rightarrow> Inr (to_hex iv @ [colon] @ to_hex encrypted))"

definition decrypt :: "platform \<Rightarrow> CryptoService \<Rightarrow> jsstring \<Rightarrow> js_error + jsstring" where
  "decrypt L svc text =
     (let parts = split_on colon text;
          ivString = elem parts 0;
          encryptedText = elem parts 1
      in if falsy ivString \<or> falsy encryptedText \<or> length (the ivString) \<noteq> IV_LENGTH * 2
         then Inl FormatError
         else (let iv = from_hex (the ivString);
                   encrypted = from_hex (the encryptedText);
                   key = getKey L svc
               in case decipher L key iv encrypted of
                    Inl e \<Rightarrow> Inl e
                  | Inr decrypted \<Rightarrow> Inr (utf8_decode decrypted)))"

text \<open>\<^verbatim>\<open>decrypt(encrypt(text))\<close>, where \<open>iv\<close> is the IV that \<^verbatim>\<open>encrypt\<close> draws.\<close>

definition decrypt_after_encrypt ::
  "platform \<Rightarrow> CryptoService \<Rightarrow> buffer \<Rightarrow> jsstring \<Rightarrow> js_error + jsstring" where
  "decrypt_after_encrypt L svc iv text =
     (case encrypt L svc iv text of
        Inl e \<Rightarrow> Inl e
      | Inr blob \<Rightarrow> decrypt L svc blob)"

text \<open>The code units that \<^verbatim>\<open>Buffer.from(s, 'hex')\<close> reads as a hexadecimal digit.\<close>

definition is_hex :: "code_unit \<Rightarrow> bool" where
  "is_hex c = (unhex c \<noteq> None)"

section \<open>Dates: \<^verbatim>\<open>new Date\<close>, \<^verbatim>\<open>toISOString\<close>, \<^verbatim>\<open>toJSON\<close>\<close>

text \<open>
  A Date is its time value, in milliseconds since the epoch; \<open>None\<close> is the invalid
  date (time value NaN). The time values of valid dates are the integers of absolute
  value at most \<open>8.64 * 10^15\<close>.
\<close>

type_synonym jsdate = "int option"

definition time_clip :: "int \<Rightarrow> jsdate" where
  "time_clip t = (if \<bar>t\<bar> \<le> 8640000000000000 then Some t else None)"

text \<open>The calendar of ECMAScript: the day number of the first of January of year \<open>y\<close>.\<close>

definition day_from_year :: "int \<Rightarrow> int" where
  "day_from_year y =
     365 * (y - 1970) + (y - 1969) div 4 - (y - 1901) div 100 + (y - 1601) div 400"

definition days_in_year :: "int \<Rightarrow> int" where
  "days_in_year y =
     (if y mod 4 \<noteq> 0 then 365 else if y mod 100 \<noteq> 0 then 366
      else if y mod 400 \<noteq> 0 then 365 else 366)"

text \<open>The year of day \<open>d\<close> is the largest \<open>y\<close> with \<open>day_from_year y \<le> d\<close>.\<close>

function year_search :: "int \<Rightarrow> int \<Rightarrow> int" where
  "year_search y d = (if day_from_year (y + 1) \<le> d then year_search (y + 1) d else y)"
  by pat_completeness auto
termination
  by (relation "measure (\<lambda>(y, d). nat (d - day_from_year (y + 1) + 1))")
     (auto simp: day_from_year_def)

definition year_from_day :: "int \<Rightarrow> int" where
  "year_from_day d = year_search (1970 + (if 0 \<le> d then d div 366 else d div 365)) d"

definition month_start :: "bool \<Rightarrow> nat \<Rightarrow> nat" where
  "month_start leap m =
     [0, 31, 59, 90, 120, 151, 181, 212, 243, 273, 304, 334] ! m
       + (if leap \<and> 2 \<le> m then 1 else 0)"

definition month_from_day :: "bool \<Rightarrow> nat \<Rightarrow> nat" where
  "month_from_day leap d =
     (if month_start leap 11 \<le> d then 11 else if month_start leap 10 \<le> d then 10
      else if month_start leap 9 \<le> d then 9 else if month_start leap 8 \<le> d then 8
      else if month_start leap 7 \<le> d then 7 else if month_start leap 6 \<le> d then 6
      else if month_start leap 5 \<le> d then 5 else if month_start leap 4 \<le> d then 4
      else if month_start leap 3 \<le> d then 3 else if month_start leap 2 \<le> d then 2
      else if month_start leap 1 \<le> d then 1 else 0)"

text \<open>\<open>digits w n\<close>: the number \<open>n\<close> in \<open>w\<close> decimal digits.\<close>

fun digits :: "nat \<Rightarrow> nat \<Rightarrow> jsstring" where
  "digits 0 n = []"
| "digits (Suc w) n = digits w (n div 10) @ [of_nat (48 + n mod 10)]"

definition year_string :: "int \<Rightarrow> jsstring" where
  "year_string y =
     (if 0 \<le> y \<and> y \<le> 9999 then digits 4 (nat y)
      else (if y < 0 then [45] else [43]) @ digits 6 (nat \<bar>y\<bar>))"

text \<open>The part of the format after the year: \<^verbatim>\<open>-MM-DDTHH:mm:ss.sssZ\<close>.\<close>

definition time_string :: "nat \<Rightarrow> nat \<Rightarrow> nat \<Rightarrow> nat \<Rightarrow> nat \<Rightarrow> nat \<Rightarrow> jsstring" where
  "time_string mo d h mi se ms =
     [45] @ digits 2 mo @ [45] @ digits 2 d @ [84] @ digits 2 h @ [58] @ digits 2 mi @ [58]
       @ digits 2 se @ [46] @ digits 3 ms @ [90]"

text \<open>\<^verbatim>\<open>toISOString\<close> of a valid date: \<^verbatim>\<open>YYYY-MM-DDTHH:mm:ss.sssZ\<close>.\<close>

definition toISOString :: "int \<Rightarrow> jsstring" where
  "toISOString t =
     (let day = t div 86400000;
          tod = nat (t mod 86400000);
          y = year_from_day day;
          diy = nat (day - day_from_year y);
          leap = (days_in_year y = 366);
          m = month_from_day leap diy;
          dom = diy - month_start leap m + 1
      in year_string y
           @ time_string (m + 1) dom (tod div 3600000) (tod div 60000 mod 60)
               (tod div 1000 mod 60) (tod mod 1000))"

text \<open>\<^verbatim>\<open>toJSON\<close>, which \<^verbatim>\<open>JSON.stringify\<close> calls on a Date: \<^verbatim>\<open>null\<close> for the invalid date.\<close>

definition toJSON :: "jsdate \<Rightarrow> json" where
  "toJSON d = (case d of None \<Rightarrow> JNull | Some t \<Rightarrow> JStr (toISOString t))"

text \<open>Reading a run of decimal digits, from the value \<open>a\<close> of the digits before it.\<close>

fun dval :: "nat \<Rightarrow> jsstring \<Rightarrow> nat option" where
  "dval a [] = Some a"
| "dval a (c # cs) =
     (if 48 \<le> unat c \<and> unat c \<le> 57 then dval (10 * a + (unat c - 48)) cs else None)"

definition iso_year :: "jsstring \<Rightarrow> (int \<times> jsstring) option" where
  "iso_year s =
     (if length s = 24 then
        (case dval 0 (take 4 s) of None \<Rightarrow> None | Some y \<Rightarrow> Some (int y, drop 4 s))
      else if length s = 27 \<and> (s ! 0 = 43 \<or> s ! 0 = 45) then
        (case dval 0 (take 6 (drop 1 s)) of
           None \<Rightarrow> None
         | Some y \<Rightarrow> Some (if s ! 0 = 45 then - int y else int y, drop 7 s))
      else None)"

definition iso_fields :: "jsstring \<Rightarrow> (nat \<times> nat \<times> nat \<times> nat \<times> nat \<times> nat) option" where
  "iso_fields r =
     (if length r = 20 \<and> r ! 0 = 45 \<and> r ! 3 = 45 \<and> r ! 6 = 84 \<and> r ! 9 = 58
         \<and> r ! 12 = 58 \<and> r ! 15 = 46 \<and> r ! 19 = 90
      then
        (case (dval 0 (take 2 (drop 1 r)), dval 0 (take 2 (drop 4 r)),
               dval 0 (take 2 (drop 7 r)), dval 0 (take 2 (drop 10 r)),
               dval 0 (take 2 (drop 13 r)), dval 0 (take 3 (drop 16 r))) of
           (Some mo, Some d, Some h, Some mi, Some se, Some ms) \<Rightarrow> Some (mo, d, h, mi, se, ms)
         | _ \<Rightarrow> None)
      else None)"

text \<open>
  The time value that a string in the format of \<^verbatim>\<open>toISOString\<close> denotes, from its
  fields.
\<close>

definition iso_time :: "jsstring \<Rightarrow> int option" where
  "iso_time s =
     (case iso_year s of
        None \<Rightarrow> None
      | Some (y, r) \<Rightarrow>
          (case iso_fields r of
             None \<Rightarrow> None
           | Some (mo, d, h, mi, se, ms) \<Rightarrow>
               if 1 \<le> mo \<and> mo \<le> 12 then
                 Some ((day_from_year y + int (month_start (days_in_year y = 366) (mo - 1))
                          + int d - 1) * 86400000
                       + int (h * 3600000 + mi * 60000 + se * 1000 + ms))
               else None))"

text \<open>
  \<^verbatim>\<open>new Date(s)\<close> for a string: a string that is exactly the \<^verbatim>\<open>toISOString\<close> of a valid
  date denotes that date; every other string is left to the engine.
\<close>

definition Date_parse :: "platform \<Rightarrow> jsstring \<Rightarrow> jsdate" where
  "Date_parse L s =
     (case iso_time s of
        None \<Rightarrow> Option.bind (Date_other L (JStr s)) time_clip
      | Some t \<Rightarrow>
          if time_clip t = Some t \<and> toISOString t = s then Some t
          else Option.bind (Date_other L (JStr s)) time_clip)"

text \<open>\<^verbatim>\<open>new Date(v)\<close>; the argument \<open>None\<close> is \<^verbatim>\<open>undefined\<close>.\<close>

fun new_Date :: "platform \<Rightarrow> json option \<Rightarrow> jsdate" where
  "new_Date L None = None"
| "new_Date L (Some JNull) = Some 0"
| "new_Date L (Some (JBool b)) = Some (if b then 1 else 0)"
| "new_Date L (Some (JStr s)) = Date_parse L s"
| "new_Date L (Some v) = Option.bind (Date_other L v) time_clip"

section \<open>A JSON implementation\<close>

text \<open>
  An executable \<^verbatim>\<open>JSON.stringify(v, null, 2)\<close> and \<^verbatim>\<open>JSON.parse\<close>, which instantiate
  the parameters \<open>JSON_stringify\<close> and \<open>JSON_parse\<close> at concrete inputs.
\<close>

definition hex4 :: "code_unit \<Rightarrow> jsstring" where
  "hex4 u =
     (let n = unat u
      in [hex_digit (n div 4096), hex_digit (n div 256 mod 16), hex_digit (n div 16 mod 16),
          hex_digit (n mod 16)])"

definition escape_unit :: "code_unit \<Rightarrow> jsstring" where
  "escape_unit u =
     (if u = 34 then [92, 34] else if u = 92 then [92, 92]
      else if u = 8 then [92, 98] else if u = 12 then [92, 102]
      else if u = 10 then [92, 110] else if u = 13 then [92, 114]
      else if u = 9 then [92, 116]
      else if unat u < 32 \<or> is_surrogate u then [92, 117] @ hex4 u
      else [u])"

fun quote_body :: "jsstring \<Rightarrow> jsstring" where
  "quote_body [] = []"
| "quote_body [u] = escape_unit u"
| "quote_body (u # v # rest) =
     (if is_high u \<and> is_low v then u # v # quote_body rest
      else escape_unit u @ quote_body (v # rest))"

definition quote :: "jsstring \<Rightarrow> jsstring" where
  "quote s = [34] @ quote_body s @ [34]"

definition indent :: "nat \<Rightarrow> jsstring" where
  "indent n = replicate (2 * n) 32"

fun join :: "jsstring \<Rightarrow> jsstring list \<Rightarrow> jsstring" where
  "join sep [] = []"
| "join sep [x] = x"
| "join sep (x # y # ys) = x @ sep @ join sep (y # ys)"

fun stringify_at :: "nat \<Rightarrow> json \<Rightarrow> jsstring" where
  "stringify_at n JNull = js ''null''"
| "stringify_at n (JBool b) = (if b then js ''true'' else js ''false'')"
| "stringify_at n (JNum lit) = lit"
| "stringify_at n (JStr s) = quote s"
| "stringify_at n (JArr xs) =
     (if xs = [] then js ''[]''
      else [91, 10] @ indent (n + 1)
           @ join ([44, 10] @ indent (n + 1)) (map (stringify_at (n + 1)) xs)
           @ [10] @ indent n @ [93])"
| "stringify_at n (JObj kvs) =
     (if kvs = [] then js ''{}''
      else [123, 10] @ indent (n + 1)
           @ join ([44, 10] @ indent (n + 1))
               (map (\<lambda>kv. quote (fst kv) @ [58, 32] @ stringify_at (n + 1) (snd kv)) kvs)
           @ [10] @ indent n @ [125])"

definition ref_stringify :: "json \<Rightarrow> jsstring" where
  "ref_stringify v = stringify_at 0 v"

definition is_ws :: "code_unit \<Rightarrow> bool" where
  "is_ws c = (c = 32 \<or> c = 9 \<or> c = 10 \<or> c = 13)"

definition skip_ws :: "jsstring \<Rightarrow> jsstring" where
  "skip_ws s = dropWhile is_ws s"

definition unescape :: "code_unit \<Rightarrow> code_unit option" where
  "unescape e =
     (if e = 34 then Some 34 else if e = 92 then Some 92 else if e = 47 then Some 47
      else if e = 98 then Some 8 else if e = 102 then Some 12 else if e = 110 then Some 10
      else if e = 114 then Some 13 else if e = 116 then Some 9 else None)"

definition unhex4 :: "code_unit \<Rightarrow> code_unit \<Rightarrow> code_unit \<Rightarrow> code_unit \<Rightarrow> code_unit option" where
  "unhex4 a b c d =
     (case (hex_val a, hex_val b, hex_val c, hex_val d) of
        (Some w, Some x, Some y, Some z) \<Rightarrow> Some (of_nat (((w * 16 + x) * 16 + y) * 16 + z))
      | _ \<Rightarrow> None)"

definition cons_fst :: "'a \<Rightarrow> ('a list \<times> 'b) option \<Rightarrow> ('a list \<times> 'b) option" where
  "cons_fst x r = (case r of None \<Rightarrow> None | Some (xs, rest) \<Rightarrow> Some (x # xs, rest))"

text \<open>The characters of a string literal after its opening quote, and the rest.\<close>

fun parse_string :: "jsstring \<Rightarrow> (jsstring \<times> jsstring) option" where
  "parse_string [] = None"
| "parse_string (c # cs) =
     (if c = 34 then Some ([], cs)
      else if c = 92 then
        (case cs of
           [] \<Rightarrow> None
         | e # cs1 \<Rightarrow>
             if e = 117 then
               (case cs1 of
                  h1 # h2 # h3 # h4 # cs2 \<Rightarrow>
                    (case unhex4 h1 h2 h3 h4 of
                       None \<Rightarrow> None
                     | Some u \<Rightarrow> cons_fst u (parse_string cs2))
                | _ \<Rightarrow> None)
             else (case unescape e of
                     None \<Rightarrow> None
                   | Some u \<Rightarrow> cons_fst u (parse_string cs1)))
      else if unat c < 32 then None
      else cons_fst c (parse_string cs))"

definition is_digit :: "code_unit \<Rightarrow> bool" where
  "is_digit c = (48 \<le> unat c \<and> unat c \<le> 57)"

definition parse_frac :: "jsstring \<Rightarrow> (jsstring \<times> jsstring) option" where
  "parse_frac r =
     (case r of
        [] \<Rightarrow> Some ([], [])
      | c # t \<Rightarrow>
          if c = 46 then
            (if takeWhile is_digit t = [] then None
             else Some (c # takeWhile is_digit t, dropWhile is_digit t))
          else Some ([], r))"

definition parse_exp :: "jsstring \<Rightarrow> (jsstring \<times> jsstring) option" where
  "parse_exp r =
     (case r of
        [] \<Rightarrow> Some ([], [])
      | c # t \<Rightarrow>
          if c = 101 \<or> c = 69 then
            (let sg = (case t of [] \<Rightarrow> [] | x # u \<Rightarrow> if x = 43 \<or> x = 45 then [x] else []);
                 t1 = drop (length sg) t
             in if takeWhile is_digit t1 = [] then None
                else Some (c # sg @ takeWhile is_digit t1, dropWhile is_digit t1))
          else Some ([], r))"

text \<open>A number literal, kept as its text.\<close>

definition parse_number :: "jsstring \<Rightarrow> (jsstring \<times> jsstring) option" where
  "parse_number cs =
     (let sg = (case cs of [] \<Rightarrow> [] | c # t \<Rightarrow> if c = 45 then [c] else []);
          r0 = drop (length sg) cs;
          ip = takeWhile is_digit r0
      in if ip = [] \<or> (hd ip = 48 \<and> 1 < length ip) then None
         else (case parse_frac (dropWhile is_digit r0) of
                 None \<Rightarrow> None
               | Some (fp, r1) \<Rightarrow>
                   (case parse_exp r1 of
                      None \<Rightarrow> None
                    | Some (ep, r2) \<Rightarrow> Some (sg @ ip @ fp @ ep, r2))))"

text \<open>A property that is set twice keeps its place and takes the later value.\<close>

fun obj_put :: "jsstring \<Rightarrow> json \<Rightarrow> (jsstring \<times> json) list \<Rightarrow> (jsstring \<times> json) list" where
  "obj_put k v [] = [(k, v)]"
| "obj_put k v ((k', v') # kvs) =
     (if k = k' then (k, v) # kvs else (k', v') # obj_put k v kvs)"

definition obj_of :: "(jsstring \<times> json) list \<Rightarrow> json" where
  "obj_of kvs = JObj (foldl (\<lambda>acc kv. obj_put (fst kv) (snd kv) acc) [] kvs)"

text \<open>
  Recursive descent; the first argument bounds the number of nested calls, and
  \<open>ref_parse\<close> starts with more than the length of the text.
\<close>

fun parse_value :: "nat \<Rightarrow> jsstring \<Rightarrow> (json \<times> jsstring) option"
  and parse_elements :: "nat \<Rightarrow> jsstring \<Rightarrow> (json list \<times> jsstring) option"
  and parse_members :: "nat \<Rightarrow> jsstring \<Rightarrow> ((jsstring \<times> json) list \<times> jsstring) option"
where
  "parse_value 0 cs = None"
| "parse_value (Suc n) cs =
     (case skip_ws cs of
        [] \<Rightarrow> None
      | c # r \<Rightarrow>
          if c = 123 then
            (case skip_ws r of
               [] \<Rightarrow> None
             | c2 # r2 \<Rightarrow>
                 if c2 = 125 then Some (JObj [], r2)
                 else (case parse_members n r of
                         None \<Rightarrow> None
                       | Some (kvs, r3) \<Rightarrow> Some (obj_of kvs, r3)))
          else if c = 91 then
            (case skip_ws r of
               [] \<Rightarrow> None
             | c2 # r2 \<Rightarrow>
                 if c2 = 93 then Some (JArr [], r2)
                 else (case parse_elements n r of
                         None \<Rightarrow> None
                       | Some (vs, r3) \<Rightarrow> Some (JArr vs, r3)))
          else if c = 34 then
            (case parse_string r of None \<Rightarrow> None | Some (s, r2) \<Rightarrow> Some (JStr s, r2))
          else if take 4 (c # r) = js ''true'' then Some (JBool True, drop 3 r)
          else if take 5 (c # r) = js ''false'' then Some (JBool False, drop 4 r)
          else if take 4 (c # r) = js ''null'' then Some (JNull, drop 3 r)
          else (case parse_number (c # r) of
                  None \<Rightarrow> None
                | Some (lit, r2) \<Rightarrow> Some (JNum lit, r2)))"
| "parse_elements 0 cs = None"
| "parse_elements (Suc n) cs =
     (case parse_value n cs of
        None \<Rightarrow> None
      | Some (v, r) \<Rightarrow>
          (case skip_ws r of
             [] \<Rightarrow> None
           | c # r2 \<Rightarrow>
               if c = 44 then cons_fst v (parse_elements n r2)
               else if c = 93 then Some ([v], r2)
               else None))"
| "parse_members 0 cs = None"
| "parse_members (Suc n) cs =
     (case skip_ws cs of
        [] \<Rightarrow> None
      | c # r \<Rightarrow>
          if c = 34 then
            (case parse_string r of
               None \<Rightarrow> None
             | Some (k, r1) \<Rightarrow>
                 (case skip_ws r1 of
                    [] \<Rightarrow> None
                  | c1 # r2 \<Rightarrow>
                      if c1 = 58 then
                        (case parse_value n r2 of
                           None \<Rightarrow> None
                         | Some (v, r3) \<Rightarrow>
                             (case skip_ws r3 of
                                [] \<Rightarrow> None
                              | c3 # r4 \<Rightarrow>
                                  if c3 = 44 then cons_fst (k, v) (parse_members n r4)
                                  else if c3 = 125 then Some ([(k, v)], r4)
                                  else None))
                      else None))
          else None)"

definition ref_parse :: "jsstring \<Rightarrow> json option" where
  "ref_parse s =
     (case parse_value (Suc (length s)) s of
        None \<Rightarrow> None
      | Some (v, r) \<Rightarrow> if skip_ws r = [] then Some v else None)"

section \<open>A platform on which the assumptions hold\<close>

text \<open>
  A stand-in for the platform, used to instantiate the theorems below at concrete
  inputs: the block cipher is the XOR with the first 16 bytes of the key, which is its
  own inverse on blocks, the key derivation returns \<open>keylen\<close> bytes, and JSON is the
  implementation above.
\<close>

definition demo_platform :: platform where
  "demo_platform =
     \<lparr>scryptSync = (\<lambda>p s n. replicate n (of_nat (length p))),
      aes_encrypt_block = (\<lambda>k b. xor_block b (take 16 k)),
      aes_decrypt_block = (\<lambda>k b. xor_block b (take 16 k)),
      JSON_stringify = ref_stringify,
      JSON_parse = ref_parse,
      Date_other = (\<lambda>v. None)\<rparr>"

section \<open>MessageLogService (message-log.service.ts)\<close>

text \<open>
  The fields of a \<^verbatim>\<open>TelegramBot.Message\<close> that the service reads: \<^verbatim>\<open>date\<close>, in seconds
  since the epoch, and \<^verbatim>\<open>text\<close>, which may be absent.
\<close>

record TelegramMessage =
  msg_date :: int
  msg_text :: "jsstring option"

text \<open>
  An element of the array that \<^verbatim>\<open>readMessages\<close> returns. The type of the source says
  that \<^verbatim>\<open>message\<close> is a string; at run time it is whatever the file holds, and
  \<open>None\<close> is \<^verbatim>\<open>undefined\<close>.
\<close>

record log_record =
  date :: jsdate
  message :: "json option"

text \<open>
  The file \<^verbatim>\<open>messages.json\<close>: missing, present but failing to be read, or its bytes;
  whether a write succeeds; how a write fails when it does; and what the logger has
  received. A write that fails at the open leaves the file as it was (\<open>partial_write\<close> is
  \<open>None\<close>); a write that fails after the open, which truncates the file (flag \<^verbatim>\<open>'w'\<close>),
  leaves the first \<open>n\<close> bytes of the new content (\<open>partial_write\<close> is \<open>Some n\<close>).
\<close>

datatype file_state = Missing | Unreadable | Content buffer

datatype log_entry = Log string | LogError string js_error

record world =
  messages_file :: file_state
  writable :: bool
  partial_write :: "nat option"
  logged :: "log_entry list"

text \<open>\<^verbatim>\<open>fs.readFile(path, 'utf-8')\<close> and \<^verbatim>\<open>fs.writeFile(path, s, 'utf-8')\<close>.\<close>

definition readFile :: "world \<Rightarrow> js_error + jsstring" where
  "readFile w =
     (case messages_file w of
        Missing \<Rightarrow> Inl ENOENT
      | Unreadable \<Rightarrow> Inl IOError
      | Content b \<Rightarrow> Inr (utf8_decode b))"

definition writeFile :: "jsstring \<Rightarrow> world \<Rightarrow> (js_error + unit) \<times> world" where
  "writeFile s w =
     (if writable w then (Inr (), w\<lparr>messages_file := Content (utf8_encode s)\<rparr>)
      else (Inl IOError,
            case partial_write w of
              None \<Rightarrow> w
            | Some n \<Rightarrow> w\<lparr>messages_file := Content (take n (utf8_encode s))\<rparr>))"

text \<open>
  \<^verbatim>\<open>'code' in error\<close>: the errors of \<^verbatim>\<open>node:fs\<close> and \<^verbatim>\<open>node:crypto\<close> carry a code, the
  \<^verbatim>\<open>Error\<close> thrown by \<^verbatim>\<open>decrypt\<close> and the SyntaxError of \<^verbatim>\<open>JSON.parse\<close> do not.
\<close>

definition has_code :: "js_error \<Rightarrow> bool" where
  "has_code e = (e = CryptoError \<or> e = ENOENT \<or> e = IOError)"

definition log_error :: "string \<Rightarrow> js_error \<Rightarrow> world \<Rightarrow> world" where
  "log_error m e w = w\<lparr>logged := logged w @ [LogError m e]\<rparr>"

definition log_line :: "string \<Rightarrow> world \<Rightarrow> world" where
  "log_line m w = w\<lparr>logged := logged w @ [Log m]\<rparr>"

text \<open>
  \<^verbatim>\<open>readEncryptedFile\<close>: every exception of the \<^verbatim>\<open>try\<close> block is caught and the result
  is \<^verbatim>\<open>null\<close>.
\<close>

definition readEncryptedFile :: "platform \<Rightarrow> CryptoService \<Rightarrow> world \<Rightarrow> json \<times> world" where
  "readEncryptedFile L svc w =
     (let attempt =
            (case readFile w of
               Inl e \<Rightarrow> Inl e
             | Inr encryptedContent \<Rightarrow>
                 (case decrypt L svc encryptedContent of
                    Inl e \<Rightarrow> Inl e
                  | Inr decryptedContent \<Rightarrow>
                      (case JSON_parse L decryptedContent of
                         None \<Rightarrow> Inl SyntaxError
                       | Some v \<Rightarrow> Inr v)))
      in case attempt of
           Inr v \<Rightarrow> (v, w)
         | Inl e \<Rightarrow>
             (JNull,
              if has_code e \<and> e \<noteq> ENOENT then log_error ''Error reading encrypted file:'' e w
              else w))"

text \<open>
  What \<^verbatim>\<open>JSON.stringify\<close> sees of the array of records: the date through \<^verbatim>\<open>toJSON\<close>,
  and no \<^verbatim>\<open>message\<close> property when the message is \<^verbatim>\<open>undefined\<close>.
\<close>

definition record_json :: "log_record \<Rightarrow> json" where
  "record_json r =
     JObj ((js ''date'', toJSON (date r))
           # (case message r of None \<Rightarrow> [] | Some v \<Rightarrow> [(js ''message'', v)]))"

definition messages_json :: "log_record list \<Rightarrow> json" where
  "messages_json ms = JArr (map record_json ms)"

text \<open>
  \<^verbatim>\<open>writeEncryptedFile\<close>: an exception of the \<^verbatim>\<open>try\<close> block is logged and thrown again.
  The argument \<open>iv\<close> is what \<^verbatim>\<open>crypto.randomBytes\<close> returns inside \<^verbatim>\<open>encrypt\<close>.
\<close>

definition writeEncryptedFile ::
  "platform \<Rightarrow> CryptoService \<Rightarrow> buffer \<Rightarrow> log_record list \<Rightarrow> world \<Rightarrow> (js_error + unit) \<times> world" where
  "writeEncryptedFile L svc iv data w =
     (let jsonContent = JSON_stringify L (messages_json data) in
      case encrypt L svc iv jsonContent of
        Inl e \<Rightarrow> (Inl e, log_error ''Error writing encrypted file:'' e w)
      | Inr encryptedContent \<Rightarrow>
          (case writeFile encryptedContent w of
             (Inl e, w1) \<Rightarrow> (Inl e, log_error ''Error writing encrypted file:'' e w1)
           | (Inr u, w1) \<Rightarrow> (Inr (), w1)))"

text \<open>
  Reading the property \<open>k\<close> (\<^verbatim>\<open>date\<close> or \<^verbatim>\<open>message\<close>) of an array element: a TypeError on
  \<^verbatim>\<open>null\<close>, the property of an object, and \<^verbatim>\<open>undefined\<close> on every other value.
\<close>

fun get_prop :: "json \<Rightarrow> jsstring \<Rightarrow> js_error + json option" where
  "get_prop JNull k = Inl TypeError"
| "get_prop (JObj kvs) k = Inr (map_of kvs k)"
| "get_prop v k = Inr None"

definition to_record :: "platform \<Rightarrow> json \<Rightarrow> js_error + log_record" where
  "to_record L msg =
     (case get_prop msg (js ''date'') of
        Inl e \<Rightarrow> Inl e
      | Inr d \<Rightarrow>
          (case get_prop msg (js ''message'') of
             Inl e \<Rightarrow> Inl e
           | Inr m \<Rightarrow> Inr \<lparr>date = new_Date L d, message = m\<rparr>))"

text \<open>\<^verbatim>\<open>Array.prototype.map\<close> with a callback that may throw.\<close>

fun map_throwing :: "('a \<Rightarrow> js_error + 'b) \<Rightarrow> 'a list \<Rightarrow> js_error + 'b list" where
  "map_throwing f [] = Inr []"
| "map_throwing f (x # xs) =
     (case f x of
        Inl e \<Rightarrow> Inl e
      | Inr y \<Rightarrow> (case map_throwing f xs of Inl e \<Rightarrow> Inl e | Inr ys \<Rightarrow> Inr (y # ys)))"

text \<open>
  \<^verbatim>\<open>readMessages\<close>: \<^verbatim>\<open>messages?.map(...) || []\<close>. The optional call returns \<^verbatim>\<open>undefined\<close>
  on \<^verbatim>\<open>null\<close> only; on a value that is not an array \<^verbatim>\<open>messages.map\<close> is not a function,
  and calling it throws outside of any \<^verbatim>\<open>try\<close> block.
\<close>

definition readMessages ::
  "platform \<Rightarrow> CryptoService \<Rightarrow> world \<Rightarrow> (js_error + log_record list) \<times> world" where
  "readMessages L svc w =
     (let (messages, w1) = readEncryptedFile L svc w in
      (case messages of
         JNull \<Rightarrow> Inr []
       | JArr xs \<Rightarrow> map_throwing (to_record L) xs
       | _ \<Rightarrow> Inl TypeError,
       w1))"

definition no_text :: jsstring where
  "no_text = js ''No text content''"

text \<open>The record that \<^verbatim>\<open>appendMessage\<close> pushes: \<^verbatim>\<open>msg.text || 'No text content'\<close>.\<close>

definition new_record :: "TelegramMessage \<Rightarrow> log_record" where
  "new_record msg =
     \<lparr>date = time_clip (msg_date msg * 1000),
      message = Some (JStr (if falsy (msg_text msg) then no_text else the (msg_text msg)))\<rparr>"

text \<open>
  \<^verbatim>\<open>appendMessage\<close>: the whole body is a \<^verbatim>\<open>try\<close> block whose \<^verbatim>\<open>catch\<close> logs the error
  and returns, so the result is never an error.
\<close>

definition appendMessage ::
  "platform \<Rightarrow> CryptoService \<Rightarrow> buffer \<Rightarrow> TelegramMessage \<Rightarrow> world \<Rightarrow> (js_error + unit) \<times> world" where
  "appendMessage L svc iv msg w =
     (let attempt =
            (case readMessages L svc w of
               (Inl e, w1) \<Rightarrow> (Inl e, w1)
             | (Inr messages, w1) \<Rightarrow>
                 (case writeEncryptedFile L svc iv (messages @ [new_record msg]) w1 of
                    (Inl e, w2) \<Rightarrow> (Inl e, w2)
                  | (Inr u, w2) \<Rightarrow> (Inr (), log_line ''Message saved to file'' w2)))
      in case attempt of
           (Inl e, w3) \<Rightarrow> (Inr (), log_error ''Error saving message to file:'' e w3)
         | (Inr u, w3) \<Rightarrow> (Inr (), w3))"

text \<open>
  A world whose file holds the encryption of \<open>text\<close>, as \<^verbatim>\<open>writeEncryptedFile\<close> would
  have left it for that content.
\<close>

definition world_with :: "platform \<Rightarrow> CryptoService \<Rightarrow> buffer \<Rightarrow> jsstring \<Rightarrow> world" where
  "world_with L svc iv text =
     \<lparr>messages_file = (case encrypt L svc iv text of
                Inl e \<Rightarrow> Missing
              | Inr blob \<Rightarrow> Content (utf8_encode blob)),
      writable = True, partial_write = None, logged = []\<rparr>"

definition empty_world :: world where
  "empty_world =
     \<lparr>messages_file = Missing, writable = True, partial_write = None, logged = []\<rparr>"

text \<open>What is assumed of JSON at a value \<open>v\<close>: its text is well formed and parses back to \<open>v\<close>.\<close>

definition json_roundtrip :: "platform \<Rightarrow> json \<Rightarrow> bool" where
  "json_roundtrip L v =
     (wellformed (JSON_stringify L v) \<and> JSON_parse L (JSON_stringify L v) = Some v)"

text \<open>A date is valid or invalid; a valid date has a time value in the range of Date.\<close>

definition valid_date :: "jsdate \<Rightarrow> bool" where
  "valid_date d = (case d of None \<Rightarrow> True | Some t \<Rightarrow> time_clip t = Some t)"

text \<open>
  What a record is after it has been written and read again: an invalid date is written
  as \<^verbatim>\<open>null\<close>, and \<^verbatim>\<open>new Date(null)\<close> is the epoch.
\<close>

definition reread :: "log_record \<Rightarrow> log_record" where
  "reread r = r\<lparr>date := (case date r of None \<Rightarrow> Some 0 | Some t \<Rightarrow> Some t)\<rparr>"

text \<open>
  A failure on the read path of \<^verbatim>\<open>readEncryptedFile\<close>: the file cannot be read, or its
  text cannot be decrypted, or the decrypted text is not JSON.
\<close>

definition read_path_fails :: "platform \<Rightarrow> CryptoService \<Rightarrow> world \<Rightarrow> bool" where
  "read_path_fails L svc w =
     (case readFile w of
        Inl e \<Rightarrow> True
      | Inr encryptedContent \<Rightarrow>
          (case decrypt L svc encryptedContent of
             Inl e \<Rightarrow> True
           | Inr decryptedContent \<Rightarrow> JSON_parse L decryptedContent = None))"

section \<open>Properties of the encodings\<close>

declare cbc_encrypt.simps [simp del] cbc_decrypt.simps [simp del]

lemma unat_byte: "n < 256 \<Longrightarrow> unat (of_nat n :: byte) = n"
  by (simp add: unat_of_nat)

lemma unat_unit: "n < 65536 \<Longrightarrow> unat (of_nat n :: code_unit) = n"
  by (simp add: unat_of_nat)

lemma unat_byte_lt: "unat (b :: byte) < 256"
  using unsigned_less [of b, where 'a = nat] by simp

lemma unat_unit_lt: "unat (u :: code_unit) < 65536"
  using unsigned_less [of u, where 'a = nat] by simp

lemma hex_val_digit: "n < 16 \<Longrightarrow> unhex (hex_digit n) = Some n"
  by (simp add: unhex_def hex_val_def hex_digit_def unat_unit Let_def del: of_nat_add)

lemma lower_hex_digit: "n < 16 \<Longrightarrow> lower_hex (hex_digit n)"
  by (simp add: lower_hex_def hex_digit_def unat_unit Let_def del: of_nat_add)

lemma from_hex_byte: "from_hex (hex_of_byte b @ rest) = b # from_hex rest"
proof -
  have d: "unat b div 16 < 16" "unat b mod 16 < 16"
    using unat_byte_lt [of b] by simp_all
  have "of_nat (16 * (unat b div 16) + unat b mod 16) = b"
    by simp
  with d show ?thesis
    by (simp add: hex_of_byte_def hex_val_digit)
qed

lemma from_hex_to_hex_append: "from_hex (to_hex bs @ rest) = bs @ from_hex rest"
  by (induction bs) (simp_all add: to_hex_def from_hex_byte)

lemma from_hex_colon: "from_hex (colon # rest) = []"
  by (cases rest) (simp_all add: colon_def unhex_def hex_val_def)

lemma from_hex_to_hex: "from_hex (to_hex bs) = bs"
  using from_hex_to_hex_append [of bs "[]"] by simp

lemma length_to_hex: "length (to_hex bs) = 2 * length bs"
  by (induction bs) (simp_all add: to_hex_def hex_of_byte_def)

lemma lower_hex_to_hex: "list_all lower_hex (to_hex bs)"
proof (induction bs)
  case Nil
  show ?case by (simp add: to_hex_def)
next
  case (Cons b bs)
  have d: "unat b div 16 < 16" "unat b mod 16 < 16"
    using unat_byte_lt [of b] by simp_all
  with Cons show ?case
    by (simp add: to_hex_def hex_of_byte_def lower_hex_digit)
qed

lemma lower_hex_not_colon: "lower_hex c \<Longrightarrow> c \<noteq> colon"
  by (auto simp: lower_hex_def colon_def Let_def)

lemma colon_notin_to_hex: "colon \<notin> set (to_hex bs)"
  using lower_hex_to_hex [of bs] lower_hex_not_colon
  by (auto simp: list_all_iff)

lemma split_on_notin: "c \<notin> set xs \<Longrightarrow> split_on c xs = [xs]"
  by (induction xs) auto

lemma split_on_append: "c \<notin> set a \<Longrightarrow> split_on c (a @ c # r) = a # split_on c r"
  by (induction a) auto

lemma xor_block_cancel: "length a = length b \<Longrightarrow> xor_block (xor_block a b) b = a"
  by (induction a b rule: list_induct2) (simp_all add: xor_block_def xor.assoc)

lemma length_xor_block: "length (xor_block a b) = min (length a) (length b)"
  by (simp add: xor_block_def)


lemma dec1: assumes "c < 128" shows "utf8_decode (enc_cp c @ bs) = of_nat c # utf8_decode bs"
proof -
  have e: "enc_cp c = [of_nat c]" using assms by (simp add: enc_cp_def)
  have u: "unat (of_nat c :: byte) = c" using assms by (simp add: unat_byte)
  show ?thesis unfolding e using assms u by (simp add: Let_def)
qed

lemma dec2: assumes "128 \<le> c" "c < 2048"
  shows "utf8_decode (enc_cp c @ bs) = of_nat c # utf8_decode bs"
proof -
  define n0 where "n0 = 192 + c div 64"
  define n1 where "n1 = 128 + c mod 64"
  have r: "194 \<le> n0" "n0 \<le> 223" "128 \<le> n1" "n1 \<le> 191"
    using assms unfolding n0_def n1_def by arith+
  have c: "(n0 - 192) * 64 + (n1 - 128) = c"
    unfolding n0_def n1_def by simp
  have e: "enc_cp c = [of_nat n0, of_nat n1]"
    using assms by (simp add: enc_cp_def n0_def n1_def del: of_nat_add)
  have u: "unat (of_nat n0 :: byte) = n0" "unat (of_nat n1 :: byte) = n1"
    using r by (simp_all add: unat_byte)
  show ?thesis unfolding e using r u c by (simp add: cont_def Let_def)
qed

lemma dec3: assumes "2048 \<le> c" "c < 65536" "\<not> (55296 \<le> c \<and> c \<le> 57343)"
  shows "utf8_decode (enc_cp c @ bs) = of_nat c # utf8_decode bs"
proof -
  define h where "h = c div 4096"
  define l where "l = c div 64 mod 64"
  define r where "r = c mod 64"
  have q: "c = 64 * (c div 64) + c mod 64" by simp
  have q2: "c div 64 = 64 * (c div 64 div 64) + c div 64 mod 64" by simp
  have q3: "c div 64 div 64 = c div 4096" by (simp add: div_mult2_eq)
  have ceq: "c = h * 4096 + l * 64 + r"
    unfolding h_def l_def r_def using q q2 q3 by linarith
  have b: "l < 64" "r < 64" by (simp_all add: l_def r_def)
  have hb: "h < 16" using assms ceq by linarith
  have s: "h = 0 \<longrightarrow> 32 \<le> l" "h = 13 \<longrightarrow> l < 32"
    using assms ceq b by auto
  have e: "enc_cp c = [of_nat (224 + h), of_nat (128 + l), of_nat (128 + r)]"
    using assms by (simp add: enc_cp_def h_def l_def r_def del: of_nat_add)
  have u: "unat (of_nat (224 + h) :: byte) = 224 + h" "unat (of_nat (128 + l) :: byte) = 128 + l"
      "unat (of_nat (128 + r) :: byte) = 128 + r"
    using b hb by (simp_all add: unat_byte del: of_nat_add)
  have so: "second_ok (of_nat (224 + h)) (of_nat (128 + l))"
    unfolding second_ok_def Let_def u using s b hb by auto
  have "utf8_decode ([of_nat (224 + h), of_nat (128 + l), of_nat (128 + r)] @ bs)
      = of_nat (h * 4096 + l * 64 + r) # utf8_decode bs"
    using so u b hb by (simp add: cont_def Let_def del: of_nat_add)
  then show ?thesis unfolding e ceq [symmetric] .
qed

lemma dec4: assumes "65536 \<le> c" "c < 1114112"
  shows "utf8_decode (enc_cp c @ bs) = cp_units c @ utf8_decode bs"
proof -
  define h where "h = c div 262144"
  define k where "k = c div 4096 mod 64"
  define l where "l = c div 64 mod 64"
  define r where "r = c mod 64"
  have q: "c = 64 * (c div 64) + c mod 64" by simp
  have q2: "c div 64 = 64 * (c div 64 div 64) + c div 64 mod 64" by simp
  have q3: "c div 64 div 64 = c div 4096" by (simp add: div_mult2_eq)
  have q4: "c div 4096 = 64 * (c div 4096 div 64) + c div 4096 mod 64" by simp
  have q5: "c div 4096 div 64 = c div 262144" by (simp add: div_mult2_eq)
  have ceq: "c = h * 262144 + k * 4096 + l * 64 + r"
    unfolding h_def k_def l_def r_def using q q2 q3 q4 q5 by linarith
  have b: "k < 64" "l < 64" "r < 64" by (simp_all add: k_def l_def r_def)
  have hb: "h < 5" using assms ceq by linarith
  have s: "h = 0 \<longrightarrow> 16 \<le> k" "h = 4 \<longrightarrow> k < 16"
    using assms ceq b by auto
  have e: "enc_cp c = [of_nat (240 + h), of_nat (128 + k), of_nat (128 + l), of_nat (128 + r)]"
    using assms by (simp add: enc_cp_def h_def k_def l_def r_def del: of_nat_add)
  have u: "unat (of_nat (240 + h) :: byte) = 240 + h" "unat (of_nat (128 + k) :: byte) = 128 + k"
      "unat (of_nat (128 + l) :: byte) = 128 + l" "unat (of_nat (128 + r) :: byte) = 128 + r"
    using b hb by (simp_all add: unat_byte del: of_nat_add)
  have so: "second_ok (of_nat (240 + h)) (of_nat (128 + k))"
    unfolding second_ok_def Let_def u using s b hb by auto
  have "utf8_decode ([of_nat (240 + h), of_nat (128 + k), of_nat (128 + l), of_nat (128 + r)] @ bs)
      = cp_units (h * 262144 + k * 4096 + l * 64 + r) @ utf8_decode bs"
    using so u b hb by (simp add: cont_def Let_def del: of_nat_add)
  then show ?thesis unfolding e ceq [symmetric] .
qed

lemma decode_unit: assumes "\<not> is_surrogate u"
  shows "utf8_decode (enc_cp (unit_cp u) @ bs) = u # utf8_decode bs"
proof -
  have lt: "unat u < 65536" by (rule unat_unit_lt)
  have ns: "\<not> (55296 \<le> unat u \<and> unat u \<le> 57343)" using assms by (simp add: is_surrogate_def)
  have "utf8_decode (enc_cp (unat u) @ bs) = of_nat (unat u) # utf8_decode bs"
    using dec1 [of "unat u" bs] dec2 [of "unat u" bs] dec3 [of "unat u" bs] lt ns
    by linarith
  then show ?thesis using assms by (simp add: unit_cp_def)
qed

lemma decode_pair: assumes "is_high u" "is_low v"
  shows "utf8_decode (enc_cp (pair_cp u v) @ bs) = u # v # utf8_decode bs"
proof -
  define a where "a = unat u - 55296"
  define b where "b = unat v - 56320"
  have ab: "a < 1024" "b < 1024" "unat u = 55296 + a" "unat v = 56320 + b"
    using assms unfolding a_def b_def is_high_def is_low_def by arith+
  have p: "pair_cp u v = 65536 + a * 1024 + b" by (simp add: pair_cp_def a_def b_def)
  have rng: "65536 \<le> pair_cp u v" "pair_cp u v < 1114112" using ab unfolding p by arith+
  have d: "(pair_cp u v - 65536) div 1024 = a" "(pair_cp u v - 65536) mod 1024 = b"
    using ab unfolding p by simp_all
  have "of_nat (55296 + a) = u" "of_nat (56320 + b) = v"
    using ab(3,4) [symmetric] by simp_all
  then have "cp_units (pair_cp u v) = [u, v]"
    using rng d by (simp add: cp_units_def del: of_nat_add)
  then show ?thesis using dec4 [OF rng, of bs] by simp
qed

lemma utf8_roundtrip: "wellformed s \<Longrightarrow> utf8_decode (utf8_encode s) = s"
proof (induction s rule: wellformed.induct)
  case 1
  show ?case by simp
next
  case (2 u)
  then show ?case using decode_unit [of u "[]"] by simp
next
  case (3 u v rest)
  show ?case
  proof (cases "is_high u \<and> is_low v")
    case True
    with 3 show ?thesis by (simp add: decode_pair)
  next
    case False
    with 3 show ?thesis by (auto simp: decode_unit)
  qed
qed


lemma nonempty_mod16: "data \<noteq> [] \<Longrightarrow> length data mod 16 = 0 \<Longrightarrow> 16 \<le> length data"
  by (cases "length data < 16") auto

lemma drop_mod16: "16 \<le> length data \<Longrightarrow> length data mod 16 = 0 \<Longrightarrow> length (drop 16 data) mod 16 = 0"
  using le_mod_geq [of 16 "length data"] by simp

lemma cbc_encrypt_step:
  "data \<noteq> [] \<Longrightarrow> cbc_encrypt E prev data
     = E (xor_block (take 16 data) prev)
         @ cbc_encrypt E (E (xor_block (take 16 data) prev)) (drop 16 data)"
  by (subst cbc_encrypt.simps) (simp add: Let_def)

lemma cbc_decrypt_step:
  "data \<noteq> [] \<Longrightarrow> cbc_decrypt D prev data
     = xor_block (D (take 16 data)) prev @ cbc_decrypt D (take 16 data) (drop 16 data)"
  by (subst cbc_decrypt.simps) (simp add: Let_def)

lemma length_cbc_encrypt:
  "\<forall>b. length b = 16 \<longrightarrow> length (E b) = 16 \<Longrightarrow> length prev = 16 \<Longrightarrow> length data mod 16 = 0
     \<Longrightarrow> length (cbc_encrypt E prev data) = length data"
proof (induction E prev data rule: cbc_encrypt.induct)
  case (1 E prev data)
  show ?case
  proof (cases "data = []")
    case True
    then show ?thesis by (simp add: cbc_encrypt.simps)
  next
    case False
    have ge: "16 \<le> length data" using False "1.prems"(3) by (rule nonempty_mod16)
    define c where "c = E (xor_block (take 16 data) prev)"
    have lc: "length c = 16"
      unfolding c_def using "1.prems"(1,2) ge by (simp add: length_xor_block)
    have dm: "length (drop 16 data) mod 16 = 0" using ge "1.prems"(3) by (rule drop_mod16)
    have IH: "length (cbc_encrypt E c (drop 16 data)) = length (drop 16 data)"
      by (rule "1.IH" [OF False c_def "1.prems"(1) lc dm])
    have "cbc_encrypt E prev data = c @ cbc_encrypt E c (drop 16 data)"
      unfolding c_def using False by (rule cbc_encrypt_step)
    then show ?thesis using IH lc ge by simp
  qed
qed

lemma cbc_decrypt_encrypt:
  "\<forall>b. length b = 16 \<longrightarrow> length (E b) = 16 \<and> D (E b) = b \<Longrightarrow> length prev = 16
     \<Longrightarrow> length data mod 16 = 0 \<Longrightarrow> cbc_decrypt D prev (cbc_encrypt E prev data) = data"
proof (induction E prev data rule: cbc_encrypt.induct)
  case (1 E prev data)
  show ?case
  proof (cases "data = []")
    case True
    then show ?thesis by (simp add: cbc_encrypt.simps cbc_decrypt.simps)
  next
    case False
    have ge: "16 \<le> length data" using False "1.prems"(3) by (rule nonempty_mod16)
    define x where "x = xor_block (take 16 data) prev"
    define c where "c = E (xor_block (take 16 data) prev)"
    define rest where "rest = cbc_encrypt E c (drop 16 data)"
    have lx: "length x = 16"
      unfolding x_def using "1.prems"(2) ge by (simp add: length_xor_block)
    have lc: "length c = 16" and dc: "D c = x"
      unfolding c_def x_def [symmetric] using "1.prems"(1) lx by simp_all
    have dm: "length (drop 16 data) mod 16 = 0" using ge "1.prems"(3) by (rule drop_mod16)
    have IH: "cbc_decrypt D c rest = drop 16 data"
      unfolding rest_def by (rule "1.IH" [OF False c_def "1.prems"(1) lc dm])
    have enc: "cbc_encrypt E prev data = c @ rest"
      unfolding c_def rest_def using False by (rule cbc_encrypt_step)
    have cne: "c @ rest \<noteq> []" using lc by auto
    have "cbc_decrypt D prev (c @ rest) = xor_block (D c) prev @ cbc_decrypt D c rest"
      using lc cbc_decrypt_step [OF cne, of D prev] by simp
    also have "xor_block (D c) prev = take 16 data"
      unfolding dc x_def using "1.prems"(2) ge by (simp add: xor_block_cancel)
    finally show ?thesis unfolding enc using IH by simp
  qed
qed

lemma length_pkcs7_pad: "length (pkcs7_pad d) = 16 * (length d div 16 + 1)"
  by (simp add: pkcs7_pad_def Let_def) presburger

lemma pkcs7_unpad_pad: "pkcs7_unpad (pkcs7_pad d) = Some d"
proof -
  define n where "n = 16 - length d mod 16"
  have n: "0 < n" "n \<le> 16" unfolding n_def by simp_all
  have u: "unat (of_nat n :: byte) = n" using n by (simp add: unat_byte)
  have p: "pkcs7_pad d = d @ replicate n (of_nat n)"
    by (simp add: pkcs7_pad_def n_def Let_def)
  have l: "last (d @ replicate n (of_nat n :: byte)) = of_nat n" using n by simp
  show ?thesis unfolding pkcs7_unpad_def p l u using n by (simp add: Let_def)
qed

lemma getKey_length: "scrypt_ok L \<Longrightarrow> length (getKey L svc) = 32"
  by (simp add: scrypt_ok_def getKey_def KEY_LENGTH_def)

lemma encrypt_result:
  "scrypt_ok L \<Longrightarrow> length iv = 16 \<Longrightarrow>
   encrypt L svc iv P =
     Inr (to_hex iv @ [colon]
          @ to_hex (cbc_encrypt (aes_encrypt_block L (getKey L svc)) iv (pkcs7_pad (utf8_encode P))))"
  by (simp add: encrypt_def cipher_def getKey_length Let_def)

lemma to_hex_empty: "to_hex bs = [] \<longleftrightarrow> bs = []"
  using length_to_hex [of bs] by (cases bs) auto

lemma decrypt_blob:
  assumes "length iv = 16" "enc \<noteq> []"
  shows "decrypt L svc (to_hex iv @ [colon] @ to_hex enc) =
     (case decipher L (getKey L svc) iv enc of
        Inl e \<Rightarrow> Inl e
      | Inr d \<Rightarrow> Inr (utf8_decode d))"
proof -
  have sp: "split_on colon (to_hex iv @ [colon] @ to_hex enc) = [to_hex iv, to_hex enc]"
    using split_on_append [OF colon_notin_to_hex, of iv "to_hex enc"]
      split_on_notin [OF colon_notin_to_hex, of enc] by simp
  have li: "length (to_hex iv) = 32" using assms by (simp add: length_to_hex)
  have ne: "to_hex iv \<noteq> []" "to_hex enc \<noteq> []" using li assms by (auto simp: to_hex_empty)
  show ?thesis
    unfolding decrypt_def sp using li ne by (simp add: Let_def IV_LENGTH_def from_hex_to_hex)
qed

lemma decipher_cipher:
  assumes "aes_ok L" "length key = 32" "length iv = 16"
  shows "decipher L key iv (cbc_encrypt (aes_encrypt_block L key) iv (pkcs7_pad d)) = Inr d"
proof -
  have E: "\<forall>b. length b = 16 \<longrightarrow> length (aes_encrypt_block L key b) = 16
             \<and> aes_decrypt_block L key (aes_encrypt_block L key b) = b"
    using assms(1,2) by (simp add: aes_ok_def)
  have m: "length (pkcs7_pad d) mod 16 = 0" by (simp add: length_pkcs7_pad)
  have len: "length (cbc_encrypt (aes_encrypt_block L key) iv (pkcs7_pad d)) = length (pkcs7_pad d)"
    using E assms(3) m by (intro length_cbc_encrypt) auto
  have ne: "cbc_encrypt (aes_encrypt_block L key) iv (pkcs7_pad d) \<noteq> []"
    using len by (auto simp: length_pkcs7_pad)
  have rt: "cbc_decrypt (aes_decrypt_block L key) iv
              (cbc_encrypt (aes_encrypt_block L key) iv (pkcs7_pad d)) = pkcs7_pad d"
    using E assms(3) m by (rule cbc_decrypt_encrypt)
  show ?thesis
    unfolding decipher_def rt using assms ne len m by (simp add: pkcs7_unpad_pad)
qed

lemma decrypt_encrypt:
  assumes "scrypt_ok L" "aes_ok L" "length iv = 16"
  shows "\<exists>blob. encrypt L svc iv P = Inr blob
           \<and> decrypt L svc blob = Inr (utf8_decode (utf8_encode P))"
proof -
  define enc where "enc = cbc_encrypt (aes_encrypt_block L (getKey L svc)) iv (pkcs7_pad (utf8_encode P))"
  have k: "length (getKey L svc) = 32" using assms(1) by (rule getKey_length)
  have dc: "decipher L (getKey L svc) iv enc = Inr (utf8_encode P)"
    unfolding enc_def using assms(2) k assms(3) by (rule decipher_cipher)
  have ne: "enc \<noteq> []" using dc by (auto simp: decipher_def split: if_splits)
  have "encrypt L svc iv P = Inr (to_hex iv @ [colon] @ to_hex enc)"
    unfolding enc_def using assms(1,3) by (rule encrypt_result)
  moreover have "decrypt L svc (to_hex iv @ [colon] @ to_hex enc) = Inr (utf8_decode (utf8_encode P))"
    using decrypt_blob [OF assms(3) ne, of L svc] dc by simp
  ultimately show ?thesis by blast
qed

lemma demo_scrypt_ok: "scrypt_ok demo_platform"
  by (simp add: scrypt_ok_def demo_platform_def)

lemma demo_aes_ok: "aes_ok demo_platform"
  by (simp add: aes_ok_def demo_platform_def length_xor_block xor_block_cancel)

lemma decrypt_after_encrypt_eq:
  assumes "scrypt_ok L" "aes_ok L" "length iv = 16"
  shows "decrypt_after_encrypt L svc iv P = Inr (utf8_decode (utf8_encode P))"
  using decrypt_encrypt [OF assms, of svc P] by (auto simp: decrypt_after_encrypt_def)

lemma split_on_first: "elem (split_on c xs) 0 = Some (takeWhile (\<lambda>x. x \<noteq> c) xs)"
  by (induction xs) (auto split: list.splits)

lemma split_on_nonempty: "split_on c xs \<noteq> []"
  by (induction xs) (auto split: list.splits)

lemma split_on_second_None: "c \<notin> set xs \<Longrightarrow> elem (split_on c xs) (Suc 0) = None"
  by (simp add: split_on_notin)

lemma split_on_second_Some:
  "c \<in> set xs \<Longrightarrow>
   elem (split_on c xs) (Suc 0)
     = Some (takeWhile (\<lambda>x. x \<noteq> c) (tl (dropWhile (\<lambda>x. x \<noteq> c) xs)))"
proof (induction xs)
  case Nil
  then show ?case by simp
next
  case (Cons x xs)
  show ?case
  proof (cases "x = c")
    case True
    then show ?thesis by (simp add: split_on_first)
  next
    case False
    then have "c \<in> set xs" using Cons.prems by simp
    then show ?thesis
      using Cons.IH False split_on_nonempty [of c xs] by (cases "split_on c xs") auto
  qed
qed

lemma from_hex_short:
  "length s = 2 * n \<Longrightarrow> \<not> list_all is_hex s \<Longrightarrow> length (from_hex s) < n"
proof (induction n arbitrary: s)
  case 0
  then show ?case by simp
next
  case (Suc n)
  then obtain a b rest where s: "s = a # b # rest"
    by (cases s; cases "tl s") auto
  have l: "length rest = 2 * n" using Suc.prems(1) s by simp
  show ?case
  proof (cases "is_hex a \<and> is_hex b")
    case True
    then have "\<not> list_all is_hex rest" using Suc.prems(2) s by simp
    then have "length (from_hex rest) < n" using Suc.IH [OF l] by simp
    then show ?thesis using True s by (auto simp: is_hex_def)
  next
    case False
    then show ?thesis using s by (auto simp: is_hex_def split: option.splits)
  qed
qed

lemma decipher_not_format: "decipher L key iv data \<noteq> Inl FormatError"
  by (simp add: decipher_def split: option.splits)

lemma decipher_bad_iv: "length iv \<noteq> 16 \<Longrightarrow> decipher L key iv data = Inl CryptoError"
  by (simp add: decipher_def)

lemma wellformed_hello: "wellformed (js ''hello'')"
  by (simp add: js_def is_surrogate_def is_high_def)

section \<open>Properties of dates\<close>

declare year_search.simps [simp del]

lemma div_step:
  fixes x n :: int
  assumes "0 < n"
  shows "(x + 1) div n = x div n + (if (x + 1) mod n = 0 then 1 else 0)"
proof -
  define q where "q = (x + 1) div n"
  define r where "r = (x + 1) mod n"
  have e: "x + 1 = n * q + r" by (simp add: q_def r_def)
  have b: "0 \<le> r" "r < n" using assms by (simp_all add: r_def)
  show ?thesis
  proof (cases "r = 0")
    case True
    have "x = n * (q - 1) + (n - 1)" using e True by (simp add: algebra_simps)
    then have "x div n = q - 1" using assms by (intro int_div_pos_eq [of x n "q - 1" "n - 1"]) auto
    then show ?thesis using True by (simp add: q_def r_def)
  next
    case False
    have "x = n * q + (r - 1)" using e by simp
    then have "x div n = q" using b False by (intro int_div_pos_eq [of x n q "r - 1"]) auto
    then show ?thesis using False by (simp add: q_def r_def)
  qed
qed

lemma div_mod_facts:
  fixes x n :: int
  assumes "q = x div n" "r = x mod n" "0 < n"
  shows "x = n * q + r \<and> 0 \<le> r \<and> r < n"
  using assms by simp

lemma day_from_year_step: "day_from_year (y + 1) = day_from_year y + days_in_year y"
proof -
  have m4: "(y + 1 - 1969) mod 4 = y mod 4"
    using mod_mult_self2 [of y 4 "- 492"] by simp
  have m100: "(y + 1 - 1901) mod 100 = y mod 100"
    using mod_mult_self2 [of y 100 "- 19"] by simp
  have m400: "(y + 1 - 1601) mod 400 = y mod 400"
    using mod_mult_self2 [of y 400 "- 4"] by simp
  have a: "(y + 1 - 1969) div 4 = (y - 1969) div 4 + (if y mod 4 = 0 then 1 else 0)"
    using div_step [of 4 "y - 1969"] m4 by (simp add: algebra_simps)
  have b: "(y + 1 - 1901) div 100 = (y - 1901) div 100 + (if y mod 100 = 0 then 1 else 0)"
    using div_step [of 100 "y - 1901"] m100 by (simp add: algebra_simps)
  have c: "(y + 1 - 1601) div 400 = (y - 1601) div 400 + (if y mod 400 = 0 then 1 else 0)"
    using div_step [of 400 "y - 1601"] m400 by (simp add: algebra_simps)
  have d: "y mod 400 = 0 \<longrightarrow> y mod 100 = 0" "y mod 100 = 0 \<longrightarrow> y mod 4 = 0"
    using mod_mod_cancel [of 100 400 y] mod_mod_cancel [of 4 100 y] by auto
  show ?thesis
    unfolding day_from_year_def days_in_year_def a b c using d by auto
qed
lemma day_from_year_bounds:
  fixes y :: int
  shows "400 * day_from_year y \<le> 146097 * y - 287810501"
    and "146097 * y - 287811596 \<le> 400 * day_from_year y"
proof -
  define a where "a = (y - 1969) div 4"
  define ra where "ra = (y - 1969) mod 4"
  define b where "b = (y - 1901) div 100"
  define rb where "rb = (y - 1901) mod 100"
  define c where "c = (y - 1601) div 400"
  define rc where "rc = (y - 1601) mod 400"
  have fa: "y - 1969 = 4 * a + ra" "0 \<le> ra" "ra < 4"
    using div_mod_facts [OF a_def ra_def] by simp_all
  have fb: "y - 1901 = 100 * b + rb" "0 \<le> rb" "rb < 100"
    using div_mod_facts [OF b_def rb_def] by simp_all
  have fc: "y - 1601 = 400 * c + rc" "0 \<le> rc" "rc < 400"
    using div_mod_facts [OF c_def rc_def] by simp_all
  have d: "400 * day_from_year y = 146000 * y - 287620000 + 400 * a - 400 * b + 400 * c"
    by (simp add: day_from_year_def a_def b_def c_def algebra_simps)
  show "400 * day_from_year y \<le> 146097 * y - 287810501"
    unfolding d using fa fb fc by linarith
  show "146097 * y - 287811596 \<le> 400 * day_from_year y"
    unfolding d using fa fb fc by linarith
qed

lemma start_nonneg: assumes "0 \<le> k" shows "day_from_year (1970 + k) \<le> 366 * k"
proof -
  consider "k = 0" | "k = 1" | "2 \<le> k" using assms by linarith
  then show ?thesis
  proof cases
    case 1 then show ?thesis by (simp add: day_from_year_def)
  next
    case 2 then show ?thesis by (simp add: day_from_year_def)
  next
    case 3
    have "400 * day_from_year (1970 + k) \<le> 146097 * k + 589"
      using day_from_year_bounds(1) [of "1970 + k"] by (simp add: algebra_simps)
    then show ?thesis using 3 by linarith
  qed
qed

lemma start_neg: assumes "k < 0" shows "day_from_year (1970 + k) \<le> 365 * k"
proof -
  consider "k = -1" | "k = -2" | "k = -3" | "k = -4" | "k = -5" | "k = -6" | "k \<le> -7"
    using assms by linarith
  then show ?thesis
  proof cases
    case 7
    have "400 * day_from_year (1970 + k) \<le> 146097 * k + 589"
      using day_from_year_bounds(1) [of "1970 + k"] by (simp add: algebra_simps)
    then show ?thesis using 7 by linarith
  qed (simp_all add: day_from_year_def)
qed

lemma year_big: "1000000 \<le> y \<Longrightarrow> 100000000 < day_from_year y"
  using day_from_year_bounds(2) [of y] by linarith

lemma year_small: assumes "y \<le> - 1000000" shows "day_from_year (y + 1) \<le> - 200000000"
proof -
  have "400 * day_from_year (y + 1) \<le> 146097 * y - 287664404"
    using day_from_year_bounds(1) [of "y + 1"] by (simp add: algebra_simps)
  then show ?thesis using assms by linarith
qed

lemma year_search_stop: "d < day_from_year (y + 1) \<Longrightarrow> year_search y d = y"
  by (subst year_search.simps) simp

lemma year_search_step: "day_from_year (y + 1) \<le> d \<Longrightarrow> year_search y d = year_search (y + 1) d"
  by (subst year_search.simps) simp

lemma year_search_spec:
  "day_from_year y \<le> d \<Longrightarrow>
     day_from_year (year_search y d) \<le> d \<and> d < day_from_year (year_search y d + 1)"
proof (induction y d rule: year_search.induct)
  case (1 y d)
  show ?case
  proof (cases "day_from_year (y + 1) \<le> d")
    case True
    then show ?thesis using "1.IH" by (simp add: year_search_step)
  next
    case False
    then show ?thesis using "1.prems" by (simp add: year_search_stop)
  qed
qed

lemma start_ok: "day_from_year (1970 + (if 0 \<le> d then d div 366 else d div 365)) \<le> d"
proof (cases "0 \<le> d")
  case True
  define k where "k = d div 366"
  have "366 * k \<le> d" "0 \<le> k" using True by (simp_all add: k_def)
  then show ?thesis using True start_nonneg [of k] by (simp add: k_def [symmetric])
next
  case False
  define k where "k = d div 365"
  have "365 * k \<le> d" "k < 0" using False by (simp_all add: k_def)
  then show ?thesis using False start_neg [of k] by (simp add: k_def [symmetric])
qed

lemma year_from_day_spec:
  "day_from_year (year_from_day d) \<le> d \<and> d < day_from_year (year_from_day d + 1)"
  unfolding year_from_day_def by (rule year_search_spec) (rule start_ok)

lemma year_from_day_bounds:
  assumes "- 200000000 < d" "d \<le> 100000000"
  shows "- 1000000 < year_from_day d" "year_from_day d < 1000000"
  using year_from_day_spec [of d] year_big [of "year_from_day d"]
    year_small [of "year_from_day d"] assms by linarith+

lemma month_props:
  assumes "d < (if leap then 366 else 365)"
  shows "month_from_day leap d \<le> 11"
    and "month_start leap (month_from_day leap d) \<le> d"
    and "d - month_start leap (month_from_day leap d) < 31"
  using assms by (cases leap; auto simp: month_from_day_def month_start_def)+

lemma length_digits: "length (digits w n) = w"
  by (induction w arbitrary: n) simp_all

lemma dval_append:
  "dval a (xs @ ys) = (case dval a xs of None \<Rightarrow> None | Some b \<Rightarrow> dval b ys)"
  by (induction xs arbitrary: a) simp_all

lemma dval_digits: "n < 10 ^ w \<Longrightarrow> dval a (digits w n) = Some (a * 10 ^ w + n)"
proof (induction w arbitrary: n a)
  case 0
  then show ?case by simp
next
  case (Suc w)
  have "n div 10 < 10 ^ w" using Suc.prems by (simp add: less_mult_imp_div_less mult.commute)
  then have IH: "dval a (digits w (n div 10)) = Some (a * 10 ^ w + n div 10)" by (rule Suc.IH)
  have u: "unat (of_nat (48 + n mod 10) :: code_unit) = 48 + n mod 10"
    by (rule unat_unit) simp
  have "10 * (n div 10) + n mod 10 = n" by simp
  then have "10 * (a * 10 ^ w + n div 10) + n mod 10 = a * 10 ^ Suc w + n"
    by (simp add: algebra_simps)
  then show ?case using IH u by (simp add: dval_append del: of_nat_add)
qed



lemma days_in_year_range: "days_in_year y = 365 \<or> days_in_year y = 366"
  by (simp add: days_in_year_def)

lemma dval_digits0: "n < 10 ^ w \<Longrightarrow> dval 0 (digits w n) = Some n"
  using dval_digits [of n w 0] by simp

lemma length_time_string: "length (time_string mo d h mi se ms) = 20"
  by (simp add: time_string_def length_digits)

lemma digits2: "digits 2 n = [of_nat (48 + n div 10 mod 10), of_nat (48 + n mod 10)]"
  by (simp add: numeral_2_eq_2 del: of_nat_add)

lemma digits3:
  "digits 3 n = [of_nat (48 + n div 10 div 10 mod 10), of_nat (48 + n div 10 mod 10),
     of_nat (48 + n mod 10)]"
  by (simp add: numeral_3_eq_3 del: of_nat_add)

lemma digits4:
  "digits 4 n = [of_nat (48 + n div 10 div 10 div 10 mod 10),
     of_nat (48 + n div 10 div 10 mod 10), of_nat (48 + n div 10 mod 10),
     of_nat (48 + n mod 10)]"
proof -
  have e: "(4::nat) = Suc 3" by simp
  have "digits 4 n = digits 3 (n div 10) @ [of_nat (48 + n mod 10)]"
    by (subst e) (simp only: digits.simps)
  then show ?thesis by (simp add: digits3 del: of_nat_add)
qed

lemma iso_fields_time_string:
  assumes "mo < 100" "d < 100" "h < 100" "mi < 100" "se < 100" "ms < 1000"
  shows "iso_fields (time_string mo d h mi se ms) = Some (mo, d, h, mi, se, ms)"
proof -
  define r where "r = time_string mo d h mi se ms"
  have L: "length r = 20" by (simp add: r_def length_time_string)
  have n: "r ! 0 = 45" "r ! 3 = 45" "r ! 6 = 84" "r ! 9 = 58" "r ! 12 = 58" "r ! 15 = 46"
      "r ! 19 = 90"
    by (simp_all add: r_def time_string_def nth_append length_digits)
  have t: "take 2 (drop 1 r) = digits 2 mo" "take 2 (drop 4 r) = digits 2 d"
      "take 2 (drop 7 r) = digits 2 h" "take 2 (drop 10 r) = digits 2 mi"
      "take 2 (drop 13 r) = digits 2 se" "take 3 (drop 16 r) = digits 3 ms"
    by (simp_all add: r_def time_string_def length_digits)
  have v: "dval 0 (digits 2 mo) = Some mo" "dval 0 (digits 2 d) = Some d"
      "dval 0 (digits 2 h) = Some h" "dval 0 (digits 2 mi) = Some mi"
      "dval 0 (digits 2 se) = Some se" "dval 0 (digits 3 ms) = Some ms"
    using assms by (simp_all add: dval_digits0)
  show ?thesis
    unfolding r_def [symmetric] iso_fields_def L n t v by simp
qed

lemma iso_year_year_string:
  assumes "\<bar>y\<bar> < 1000000" "length r = 20"
  shows "iso_year (year_string y @ r) = Some (y, r)"
proof (cases "0 \<le> y \<and> y \<le> 9999")
  case True
  then have "nat y < 10 ^ 4" by auto
  then have v: "dval 0 (digits 4 (nat y)) = Some (nat y)" by (rule dval_digits0)
  show ?thesis
    using True assms(2) v by (simp add: iso_year_def year_string_def length_digits)
next
  case False
  have "nat \<bar>y\<bar> < 10 ^ 6" using assms(1) by simp
  then have v: "dval 0 (digits 6 (nat \<bar>y\<bar>)) = Some (nat \<bar>y\<bar>)" by (rule dval_digits0)
  show ?thesis
  proof (cases "y < 0")
    case True
    then show ?thesis
      using False assms(2) v by (simp add: iso_year_def year_string_def length_digits)
  next
    case nonneg: False
    then show ?thesis
      using False assms(2) v by (simp add: iso_year_def year_string_def length_digits)
  qed
qed

lemma tod_fields:
  fixes tod :: nat
  assumes "tod < 86400000"
  shows "tod div 3600000 < 100" "tod div 60000 mod 60 < 100" "tod div 1000 mod 60 < 100"
    "tod mod 1000 < 1000"
    "tod div 3600000 * 3600000 + tod div 60000 mod 60 * 60000 + tod div 1000 mod 60 * 1000
       + tod mod 1000 = tod"
proof -
  define h where "h = tod div 3600000"
  define mi where "mi = tod div 60000 mod 60"
  define se where "se = tod div 1000 mod 60"
  define ms where "ms = tod mod 1000"
  have q: "tod = 1000 * (tod div 1000) + tod mod 1000" by simp
  have q2: "tod div 1000 = 60 * (tod div 1000 div 60) + tod div 1000 mod 60" by simp
  have q3: "tod div 1000 div 60 = tod div 60000" by (simp add: div_mult2_eq)
  have q4: "tod div 60000 = 60 * (tod div 60000 div 60) + tod div 60000 mod 60" by simp
  have q5: "tod div 60000 div 60 = tod div 3600000" by (simp add: div_mult2_eq)
  have e: "h * 3600000 + mi * 60000 + se * 1000 + ms = tod"
    unfolding h_def mi_def se_def ms_def using q q2 q3 q4 q5 by linarith
  have b: "mi < 60" "se < 60" "ms < 1000" by (simp_all add: mi_def se_def ms_def)
  have "h < 24" using e assms by linarith
  then show "tod div 3600000 < 100" "tod div 60000 mod 60 < 100" "tod div 1000 mod 60 < 100"
    "tod mod 1000 < 1000"
    "tod div 3600000 * 3600000 + tod div 60000 mod 60 * 60000 + tod div 1000 mod 60 * 1000
       + tod mod 1000 = tod"
    using b e by (simp_all add: h_def mi_def se_def ms_def)
qed

lemma iso_time_toISOString:
  assumes "time_clip t = Some t"
  shows "iso_time (toISOString t) = Some t"
proof -
  define day where "day = t div 86400000"
  define rt where "rt = t mod 86400000"
  define tod where "tod = nat rt"
  define y where "y = year_from_day day"
  define diy where "diy = nat (day - day_from_year y)"
  define leap where "leap = (days_in_year y = 366)"
  define m where "m = month_from_day leap diy"
  define dom where "dom = diy - month_start leap m + 1"
  define r where "r = time_string (m + 1) dom (tod div 3600000) (tod div 60000 mod 60)
      (tod div 1000 mod 60) (tod mod 1000)"
  have iso: "toISOString t = year_string y @ r"
    by (simp add: toISOString_def Let_def day_def rt_def tod_def y_def diy_def leap_def m_def
        dom_def r_def)
  have tb: "- 8640000000000000 \<le> t" "t \<le> 8640000000000000"
    using assms by (simp_all add: time_clip_def split: if_splits)
  have dm: "t = 86400000 * day + rt" "0 \<le> rt" "rt < 86400000"
    using div_mod_facts [OF day_def rt_def] by simp_all
  have dayb: "- 200000000 < day" "day \<le> 100000000" using tb dm by linarith+
  have ys: "day_from_year y \<le> day" "day < day_from_year (y + 1)"
    using year_from_day_spec [of day] by (simp_all add: y_def)
  have yb: "\<bar>y\<bar> < 1000000"
    using year_from_day_bounds [OF dayb] by (simp add: y_def)
  have diy_int: "int diy = day - day_from_year y" using ys(1) by (simp add: diy_def)
  have "day - day_from_year y < days_in_year y"
    using ys(2) day_from_year_step [of y] by linarith
  then have diyb: "diy < (if leap then 366 else 365)"
    using diy_int days_in_year_range [of y] by (auto simp: leap_def)
  have mp: "m \<le> 11" "month_start leap m \<le> diy" "diy - month_start leap m < 31"
    using month_props [OF diyb] by (simp_all add: m_def)
  have todb: "tod < 86400000" using dm by (simp add: tod_def)
  note tf = tod_fields [OF todb]
  have fields: "iso_fields r = Some (m + 1, dom, tod div 3600000, tod div 60000 mod 60,
      tod div 1000 mod 60, tod mod 1000)"
    unfolding r_def using mp tf(1-4) by (intro iso_fields_time_string) (simp_all add: dom_def)
  have yr: "iso_year (year_string y @ r) = Some (y, r)"
    using yb by (rule iso_year_year_string) (simp add: r_def length_time_string)
  have dsum: "int (month_start leap m) + int dom - 1 = day - day_from_year y"
    using mp(2) diy_int by (simp add: dom_def)
  have tsum: "int (tod div 3600000 * 3600000 + tod div 60000 mod 60 * 60000
      + tod div 1000 mod 60 * 1000 + tod mod 1000) = rt"
    using tf(5) dm(2) by (simp add: tod_def)
  have "(day_from_year y + int (month_start leap m) + int dom - 1) * 86400000
      + int (tod div 3600000 * 3600000 + tod div 60000 mod 60 * 60000
             + tod div 1000 mod 60 * 1000 + tod mod 1000) = t"
    unfolding tsum using dsum dm(1) by (simp add: algebra_simps)
  then show ?thesis
    using mp(1) by (simp add: iso iso_time_def yr fields leap_def)
qed

lemma Date_parse_toISOString: "time_clip t = Some t \<Longrightarrow> Date_parse L (toISOString t) = Some t"
  by (simp add: Date_parse_def iso_time_toISOString)

lemma toISOString_hello: "toISOString 1700000000000 = js ''2023-11-14T22:13:20.000Z''"
proof -
  have y: "year_from_day 19675 = 2023"
    by (simp add: year_from_day_def year_search_stop day_from_year_def)
  have d: "day_from_year 2023 = 19358" by (simp add: day_from_year_def)
  have l: "days_in_year 2023 = 365" by (simp add: days_in_year_def)
  have m: "month_from_day False 317 = 10" by (simp add: month_from_day_def month_start_def)
  have ms: "month_start False 10 = 304" by (simp add: month_start_def)
  have ys: "year_string 2023 = js ''2023''" by (simp add: year_string_def digits4 js_def)
  have ts: "time_string 11 14 22 13 20 0 = js ''-11-14T22:13:20.000Z''"
    by (simp add: time_string_def digits2 digits3 js_def)
  have "toISOString 1700000000000 = year_string 2023 @ time_string 11 14 22 13 20 0"
    by (simp add: toISOString_def Let_def y d l m ms)
  then show ?thesis by (simp add: ys ts js_def)
qed

section \<open>Claims about the CryptoService\<close>

text \<open>
  Claim C7. Key derivation is a function of the passphrase alone, with the fixed salt
  \<^verbatim>\<open>'salt'\<close> and the fixed length 32: for every passphrase \<open>p\<close>, the empty one included,
  \<^verbatim>\<open>getKey\<close> returns \<^verbatim>\<open>scryptSync(p, 'salt', 32)\<close>, a key of exactly 32 bytes, and it
  cannot fail.
\<close>

theorem getKey_fixed_salt_32_bytes:
  "scrypt_ok L \<Longrightarrow>
     getKey L \<lparr>encryptionKey = p\<rparr> = scryptSync L p (js ''salt'') 32
     \<and> length (getKey L \<lparr>encryptionKey = p\<rparr>) = 32"
  by (simp add: getKey_def KEY_LENGTH_def scrypt_ok_def)

text \<open>Claim C7 at the empty passphrase.\<close>

theorem getKey_fixed_salt_32_bytes_witness:
  "scrypt_ok demo_platform
     \<and> getKey demo_platform \<lparr>encryptionKey = []\<rparr> = scryptSync demo_platform [] (js ''salt'') 32
     \<and> length (getKey demo_platform \<lparr>encryptionKey = []\<rparr>) = 32"
  using getKey_fixed_salt_32_bytes [OF demo_scrypt_ok, of "[]"] demo_scrypt_ok by blast

text \<open>
  Claim C1, as stated, fails: a plaintext that holds a surrogate without partner does
  not come back. \<^verbatim>\<open>cipher.update(text, 'utf8', 'hex')\<close> encodes the lone surrogate
  U+D800 as the three bytes of U+FFFD, so decrypting returns U+FFFD.
\<close>

theorem roundtrip_lone_surrogate_counterexample:
  "decrypt_after_encrypt demo_platform (new_CryptoService None) (replicate 16 0) [0xD800]
     \<noteq> Inr [0xD800]"
proof -
  have "utf8_decode (utf8_encode [0xD800]) = [0xFFFD]"
    by (simp add: unit_cp_def is_surrogate_def enc_cp_def replacement_def second_ok_def cont_def)
  then show ?thesis
    using decrypt_after_encrypt_eq [OF demo_scrypt_ok demo_aes_ok, of "replicate 16 0"
        "new_CryptoService None" "[0xD800]"]
    by simp
qed

text \<open>
  Claim C1, amended: for every well-formed plaintext \<open>P\<close> (every surrogate is half of a
  pair), every passphrase and every IV of 16 bytes, \<^verbatim>\<open>encrypt\<close> succeeds and decrypting
  its blob returns exactly \<open>P\<close>.
\<close>

theorem roundtrip_wellformed:
  "scrypt_ok L \<Longrightarrow> aes_ok L \<Longrightarrow> length iv = 16 \<Longrightarrow> wellformed P
     \<Longrightarrow> decrypt_after_encrypt L svc iv P = Inr P"
  by (simp add: decrypt_after_encrypt_eq utf8_roundtrip)

text \<open>Claim C1, amended, at the plaintext \<^verbatim>\<open>'hello'\<close>.\<close>

theorem roundtrip_wellformed_witness:
  "scrypt_ok demo_platform \<and> aes_ok demo_platform \<and> length (replicate 16 (7 :: byte)) = 16
     \<and> wellformed (js ''hello'')
     \<and> decrypt_after_encrypt demo_platform (new_CryptoService None) (replicate 16 7) (js ''hello'')
         = Inr (js ''hello'')"
  using roundtrip_wellformed [OF demo_scrypt_ok demo_aes_ok _ wellformed_hello,
      of "replicate 16 7" "new_CryptoService None"]
    demo_scrypt_ok demo_aes_ok wellformed_hello
  by simp

text \<open>
  Claim C5, as stated, fails: a blob whose IV segment has 32 characters that are not
  hexadecimal digits passes the framing check of \<^verbatim>\<open>decrypt\<close>; it is rejected afterwards
  by \<^verbatim>\<open>createDecipheriv\<close>, not with the format error.
\<close>

theorem decrypt_non_hex_iv_counterexample:
  "decrypt demo_platform (new_CryptoService None) (js ''zzzzzzzzzzzzzzzzzzzzzzzzzzzzzzzz:00'')
     = Inl CryptoError"
  by (simp add: decrypt_def js_def colon_def IV_LENGTH_def unhex_def hex_val_def decipher_def
      Let_def)

text \<open>
  Claim C5, amended: \<^verbatim>\<open>decrypt\<close> throws the format error exactly when the segment before
  the first colon is empty, or the text has no colon, or the segment after the first
  colon (up to the next colon or the end) is empty, or the first segment does not have
  exactly 32 characters. Whether these characters are hexadecimal digits is not checked:
  a blob that passes the check and has, among the 32 characters of its first segment,
  one that \<^verbatim>\<open>Buffer.from(s, 'hex')\<close> does not read as a hexadecimal digit (it looks at the
  low byte of the code unit) gives an IV of fewer than 16 bytes and is rejected by
  \<^verbatim>\<open>createDecipheriv\<close>, not with the format error.
\<close>

theorem decrypt_FormatError_iff:
  "((decrypt L svc text = Inl FormatError) =
     (let ivString = takeWhile (\<lambda>c. c \<noteq> colon) text;
          encryptedText = takeWhile (\<lambda>c. c \<noteq> colon) (tl (dropWhile (\<lambda>c. c \<noteq> colon) text))
      in ivString = [] \<or> colon \<notin> set text \<or> encryptedText = [] \<or> length ivString \<noteq> 32))
   \<and> (decrypt L svc text \<noteq> Inl FormatError
        \<and> \<not> list_all is_hex (takeWhile (\<lambda>c. c \<noteq> colon) text)
      \<longrightarrow> decrypt L svc text = Inl CryptoError)"
proof -
  let ?iv = "takeWhile (\<lambda>c. c \<noteq> colon) text"
  let ?enc = "takeWhile (\<lambda>c. c \<noteq> colon) (tl (dropWhile (\<lambda>c. c \<noteq> colon) text))"
  have iff: "(decrypt L svc text = Inl FormatError) =
      (?iv = [] \<or> colon \<notin> set text \<or> ?enc = [] \<or> length ?iv \<noteq> 32)"
  proof (cases "colon \<in> set text")
    case True
    then show ?thesis
      by (auto simp: decrypt_def Let_def split_on_first split_on_second_Some IV_LENGTH_def
          decipher_not_format split: sum.splits)
  next
    case False
    then show ?thesis
      by (simp add: decrypt_def Let_def split_on_first split_on_second_None)
  qed
  have "decrypt L svc text = Inl CryptoError"
    if nf: "decrypt L svc text \<noteq> Inl FormatError" and nh: "\<not> list_all is_hex ?iv"
  proof -
    from nf iff have f: "?iv \<noteq> []" "colon \<in> set text" "?enc \<noteq> []" "length ?iv = 32"
      by auto
    have "length (from_hex ?iv) < 16"
      using from_hex_short [of ?iv 16, OF _ nh] f(4) by simp
    then have "decipher L (getKey L svc) (from_hex ?iv) (from_hex ?enc) = Inl CryptoError"
      by (intro decipher_bad_iv) simp
    then show ?thesis
      using f
      by (simp add: decrypt_def Let_def split_on_first split_on_second_Some IV_LENGTH_def)
  qed
  with iff show ?thesis by (simp add: Let_def)
qed

text \<open>Claim C5, amended, at a blob without colon and at a blob with a non-hex IV.\<close>

theorem decrypt_FormatError_iff_witness:
  "decrypt demo_platform (new_CryptoService None) (js ''abc'') = Inl FormatError
   \<and> decrypt demo_platform (new_CryptoService None)
        (js ''0123456789abcdef0123456789abcdeg:00'') = Inl CryptoError"
proof -
  have "decrypt demo_platform (new_CryptoService None) (js ''abc'') = Inl FormatError"
    using decrypt_FormatError_iff [of demo_platform "new_CryptoService None" "js ''abc''"]
    by (simp add: js_def colon_def Let_def)
  moreover have "decrypt demo_platform (new_CryptoService None)
        (js ''0123456789abcdef0123456789abcdeg:00'') = Inl CryptoError"
    using decrypt_FormatError_iff [of demo_platform "new_CryptoService None"
        "js ''0123456789abcdef0123456789abcdeg:00''"]
    by (simp add: js_def colon_def Let_def is_hex_def unhex_def hex_val_def)
  ultimately show ?thesis by simp
qed

text \<open>
  Claim C9. For every plaintext \<open>P\<close>, every passphrase and every IV of 16 bytes,
  \<^verbatim>\<open>encrypt\<close> returns a blob of the form \<open>ivHex:cipherHex\<close>: \<open>ivHex\<close> is the IV in 32
  lowercase hexadecimal digits, there is exactly one colon, and \<open>cipherHex\<close> is a
  non-empty run of lowercase hexadecimal digits of even length, namely
  \<open>32 * (n div 16 + 1)\<close> digits for a plaintext of \<open>n\<close> UTF-8 bytes.
\<close>

theorem encrypt_blob_grammar:
  assumes "scrypt_ok L" "aes_ok L" "length iv = 16"
  shows "\<exists>ivHex cipherHex.
           encrypt L svc iv P = Inr (ivHex @ [colon] @ cipherHex)
           \<and> ivHex = to_hex iv \<and> length ivHex = 32
           \<and> list_all lower_hex ivHex \<and> list_all lower_hex cipherHex
           \<and> colon \<notin> set ivHex \<and> colon \<notin> set cipherHex
           \<and> cipherHex \<noteq> [] \<and> even (length cipherHex)
           \<and> length cipherHex = 32 * (length (utf8_encode P) div 16 + 1)"
proof -
  define enc where
    "enc = cbc_encrypt (aes_encrypt_block L (getKey L svc)) iv (pkcs7_pad (utf8_encode P))"
  have k: "length (getKey L svc) = 32" using assms(1) by (rule getKey_length)
  have E: "\<forall>b. length b = 16 \<longrightarrow> length (aes_encrypt_block L (getKey L svc) b) = 16"
    using assms(2) k by (simp add: aes_ok_def)
  have "length enc = length (pkcs7_pad (utf8_encode P))"
    unfolding enc_def using E assms(3) by (rule length_cbc_encrypt) (simp add: length_pkcs7_pad)
  then have len: "length (to_hex enc) = 32 * (length (utf8_encode P) div 16 + 1)"
    by (simp add: length_to_hex length_pkcs7_pad)
  have "encrypt L svc iv P = Inr (to_hex iv @ [colon] @ to_hex enc)"
    unfolding enc_def using assms(1,3) by (rule encrypt_result)
  moreover have "length (to_hex iv) = 32" using assms(3) by (simp add: length_to_hex)
  moreover have "to_hex enc \<noteq> []" "even (length (to_hex enc))" using len by auto
  ultimately show ?thesis
    using len lower_hex_to_hex colon_notin_to_hex by blast
qed

text \<open>Claim C9 at the plaintext \<^verbatim>\<open>'hello'\<close>: five bytes, so 32 digits of ciphertext.\<close>

theorem encrypt_blob_grammar_witness:
  "\<exists>ivHex cipherHex.
     encrypt demo_platform (new_CryptoService None) (replicate 16 7) (js ''hello'')
       = Inr (ivHex @ [colon] @ cipherHex)
     \<and> ivHex = to_hex (replicate 16 7) \<and> length ivHex = 32
     \<and> list_all lower_hex ivHex \<and> list_all lower_hex cipherHex
     \<and> colon \<notin> set ivHex \<and> colon \<notin> set cipherHex
     \<and> cipherHex \<noteq> [] \<and> even (length cipherHex)
     \<and> length cipherHex = 32 * (length (utf8_encode (js ''hello'')) div 16 + 1)"
  by (rule encrypt_blob_grammar [OF demo_scrypt_ok demo_aes_ok]) simp

text \<open>
  Claim C8, as stated, fails for the same reason as C1: with a plaintext that holds a
  lone surrogate, neither of two blobs made with distinct IVs decrypts back to it.
\<close>

theorem iv_freshness_lone_surrogate_counterexample:
  "decrypt_after_encrypt demo_platform (new_CryptoService None) (replicate 16 0) [0xDC00]
     \<noteq> Inr [0xDC00]
   \<and> decrypt_after_encrypt demo_platform (new_CryptoService None) (replicate 16 1) [0xDC00]
     \<noteq> Inr [0xDC00]"
proof -
  have "utf8_decode (utf8_encode [0xDC00]) = [0xFFFD]"
    by (simp add: unit_cp_def is_surrogate_def enc_cp_def replacement_def second_ok_def cont_def)
  then show ?thesis
    using decrypt_after_encrypt_eq [OF demo_scrypt_ok demo_aes_ok, of "replicate 16 0"
        "new_CryptoService None" "[0xDC00]"]
      decrypt_after_encrypt_eq [OF demo_scrypt_ok demo_aes_ok, of "replicate 16 1"
        "new_CryptoService None" "[0xDC00]"]
    by simp
qed

text \<open>
  Claim C8, amended: for every well-formed plaintext \<open>P\<close> and every passphrase, two
  encryptions of \<open>P\<close> with distinct IVs of 16 bytes give distinct blobs, whose IV segments
  (the first 32 characters) differ, and both blobs decrypt back to \<open>P\<close>.
\<close>

theorem iv_freshness:
  assumes "scrypt_ok L" "aes_ok L" "length iv1 = 16" "length iv2 = 16" "iv1 \<noteq> iv2"
    and "wellformed P"
  shows "\<exists>blob1 blob2.
           encrypt L svc iv1 P = Inr blob1 \<and> encrypt L svc iv2 P = Inr blob2
           \<and> blob1 \<noteq> blob2 \<and> take 32 blob1 \<noteq> take 32 blob2
           \<and> decrypt L svc blob1 = Inr P \<and> decrypt L svc blob2 = Inr P"
proof -
  obtain blob1 where b1: "encrypt L svc iv1 P = Inr blob1"
      "decrypt L svc blob1 = Inr (utf8_decode (utf8_encode P))"
    using decrypt_encrypt [OF assms(1,2,3)] by blast
  obtain blob2 where b2: "encrypt L svc iv2 P = Inr blob2"
      "decrypt L svc blob2 = Inr (utf8_decode (utf8_encode P))"
    using decrypt_encrypt [OF assms(1,2,4)] by blast
  have t1: "take 32 blob1 = to_hex iv1"
    using b1(1) encrypt_result [OF assms(1,3), of svc P] assms(3) by (auto simp: length_to_hex)
  have t2: "take 32 blob2 = to_hex iv2"
    using b2(1) encrypt_result [OF assms(1,4), of svc P] assms(4) by (auto simp: length_to_hex)
  have "to_hex iv1 \<noteq> to_hex iv2"
    using assms(5) from_hex_to_hex [of iv1] from_hex_to_hex [of iv2] by auto
  then have "take 32 blob1 \<noteq> take 32 blob2" using t1 t2 by simp
  moreover from this have "blob1 \<noteq> blob2" by auto
  ultimately show ?thesis using b1 b2 assms(6) by (auto simp: utf8_roundtrip)
qed

text \<open>Claim C8, amended, at the plaintext \<^verbatim>\<open>'hello'\<close> and two constant IVs.\<close>

theorem iv_freshness_witness:
  "\<exists>blob1 blob2.
     encrypt demo_platform (new_CryptoService None) (replicate 16 0) (js ''hello'') = Inr blob1
     \<and> encrypt demo_platform (new_CryptoService None) (replicate 16 1) (js ''hello'') = Inr blob2
     \<and> blob1 \<noteq> blob2 \<and> take 32 blob1 \<noteq> take 32 blob2
     \<and> decrypt demo_platform (new_CryptoService None) blob1 = Inr (js ''hello'')
     \<and> decrypt demo_platform (new_CryptoService None) blob2 = Inr (js ''hello'')"
  by (rule iv_freshness [OF demo_scrypt_ok demo_aes_ok _ _ _ wellformed_hello]) simp_all


section \<open>Properties of the message log\<close>

lemma wellformed_no_surrogate: "\<forall>c\<in>set s. \<not> is_surrogate c \<Longrightarrow> wellformed s"
  by (induction s rule: wellformed.induct) (auto simp: is_high_def is_surrogate_def)

lemma lower_hex_not_surrogate: "lower_hex c \<Longrightarrow> \<not> is_surrogate c"
  by (auto simp: lower_hex_def is_surrogate_def Let_def)

lemma wellformed_blob: "wellformed (to_hex a @ [colon] @ to_hex b)"
proof (rule wellformed_no_surrogate)
  have "\<not> is_surrogate colon" by (simp add: is_surrogate_def colon_def)
  then show "\<forall>c\<in>set (to_hex a @ [colon] @ to_hex b). \<not> is_surrogate c"
    using lower_hex_to_hex [of a] lower_hex_to_hex [of b] lower_hex_not_surrogate
    by (auto simp: list_all_iff)
qed

lemma encrypt_wellformed: "encrypt L svc iv text = Inr blob \<Longrightarrow> wellformed blob"
  using wellformed_blob by (auto simp: encrypt_def Let_def split: sum.splits)

lemma read_back:
  assumes "scrypt_ok L" "aes_ok L" "length iv = 16" "wellformed text"
    and "encrypt L svc iv text = Inr blob" "messages_file w = Content (utf8_encode blob)"
  shows "readEncryptedFile L svc w =
           (case JSON_parse L text of None \<Rightarrow> (JNull, w) | Some v \<Rightarrow> (v, w))"
proof -
  have rf: "readFile w = Inr blob"
    using assms(5,6) by (simp add: readFile_def utf8_roundtrip encrypt_wellformed)
  have "decrypt L svc blob = Inr text"
    using decrypt_encrypt [OF assms(1,2,3), of svc "text"] assms(4,5) by (auto simp: utf8_roundtrip)
  then show ?thesis
    using rf by (simp add: readEncryptedFile_def Let_def has_code_def split: option.splits)
qed

lemma bind_time_clip_valid: "valid_date (Option.bind x time_clip)"
  by (cases x) (auto simp: valid_date_def time_clip_def split: option.splits)

lemma Date_parse_valid: "valid_date (Date_parse L s)"
  using bind_time_clip_valid [of "Date_other L (JStr s)"]
  by (auto simp: Date_parse_def valid_date_def split: option.splits)

lemma new_Date_valid: "valid_date (new_Date L v)"
proof (cases v)
  case None
  then show ?thesis by (simp add: valid_date_def)
next
  case (Some x)
  then show ?thesis
    using bind_time_clip_valid Date_parse_valid
    by (cases x) (auto simp: valid_date_def time_clip_def)
qed

lemma to_record_valid: "to_record L x = Inr r \<Longrightarrow> valid_date (date r)"
  using new_Date_valid by (auto simp: to_record_def split: sum.splits)

lemma map_throwing_valid:
  "map_throwing (to_record L) xs = Inr rs \<Longrightarrow> \<forall>r\<in>set rs. valid_date (date r)"
  by (induction xs arbitrary: rs) (auto split: sum.splits dest: to_record_valid)

lemma readMessages_valid:
  "fst (readMessages L svc w) = Inr rs \<Longrightarrow> \<forall>r\<in>set rs. valid_date (date r)"
  using map_throwing_valid
  by (auto simp: readMessages_def split: prod.splits json.splits)

lemma readEncryptedFile_world:
  "messages_file (snd (readEncryptedFile L svc w)) = messages_file w"
  "writable (snd (readEncryptedFile L svc w)) = writable w"
  by (auto simp: readEncryptedFile_def Let_def log_error_def split: sum.splits option.splits)

lemma readMessages_world:
  "messages_file (snd (readMessages L svc w)) = messages_file w"
  "writable (snd (readMessages L svc w)) = writable w"
  using readEncryptedFile_world [of L svc w]
  by (auto simp: readMessages_def split: prod.splits)

lemma to_record_record_json:
  assumes "valid_date (date r)"
  shows "to_record L (record_json r) = Inr (reread r)"
proof -
  have k: "js ''date'' \<noteq> js ''message''" by (simp add: js_def)
  have d: "new_Date L (Some (toJSON (date r)))
      = (case date r of None \<Rightarrow> Some 0 | Some t \<Rightarrow> Some t)"
    using assms
    by (auto simp: toJSON_def valid_date_def Date_parse_toISOString split: option.splits)
  show ?thesis
    using k d by (cases "message r") (simp_all add: to_record_def record_json_def reread_def)
qed

lemma map_throwing_records:
  "\<forall>r\<in>set rs. valid_date (date r) \<Longrightarrow>
     map_throwing (to_record L) (map record_json rs) = Inr (map reread rs)"
  by (induction rs) (simp_all add: to_record_record_json)


lemma new_record_valid: "valid_date (date (new_record msg))"
  by (simp add: new_record_def valid_date_def time_clip_def)

lemma append_then_read:
  assumes "scrypt_ok L" "aes_ok L" "length iv = 16" "writable w"
    and rd: "fst (readMessages L svc w) = Inr prior"
    and jr: "json_roundtrip L (messages_json (prior @ [new_record msg]))"
  shows "fst (readMessages L svc (snd (appendMessage L svc iv msg w)))
           = Inr (map reread (prior @ [new_record msg]))"
    and "writable (snd (appendMessage L svc iv msg w))"
proof -
  define w1 where "w1 = snd (readMessages L svc w)"
  define body where "body = JSON_stringify L (messages_json (prior @ [new_record msg]))"
  have r1: "readMessages L svc w = (Inr prior, w1)"
    using rd by (simp add: w1_def prod_eq_iff)
  have w1: "writable w1" using assms(4) by (simp add: w1_def readMessages_world)
  obtain blob where blob: "encrypt L svc iv body = Inr blob"
    using encrypt_result [OF assms(1,3)] by blast
  define w2 where "w2 = w1\<lparr>messages_file := Content (utf8_encode blob)\<rparr>"
  have wr: "writeEncryptedFile L svc iv (prior @ [new_record msg]) w1 = (Inr (), w2)"
    using blob w1 by (simp add: writeEncryptedFile_def writeFile_def body_def w2_def Let_def)
  have ap: "appendMessage L svc iv msg w = (Inr (), log_line ''Message saved to file'' w2)"
    by (simp add: appendMessage_def r1 wr Let_def)
  define w3 where "w3 = log_line ''Message saved to file'' w2"
  have f3: "messages_file w3 = Content (utf8_encode blob)" "writable w3"
    using w1 by (simp_all add: w3_def w2_def log_line_def)
  have wf: "wellformed body" and pj: "JSON_parse L body = Some (messages_json (prior @ [new_record msg]))"
    using jr by (simp_all add: json_roundtrip_def body_def)
  have re: "readEncryptedFile L svc w3 = (messages_json (prior @ [new_record msg]), w3)"
    using read_back [OF assms(1,2,3) wf blob f3(1)] pj by simp
  have v: "\<forall>r\<in>set (prior @ [new_record msg]). valid_date (date r)"
    using readMessages_valid [OF rd] new_record_valid by auto
  have "fst (readMessages L svc w3) = Inr (map reread (prior @ [new_record msg]))"
    using map_throwing_records [OF v, of L]
    by (simp add: readMessages_def re messages_json_def)
  then show "fst (readMessages L svc (snd (appendMessage L svc iv msg w)))
           = Inr (map reread (prior @ [new_record msg]))"
    by (simp add: ap w3_def)
  show "writable (snd (appendMessage L svc iv msg w))"
    using f3(2) by (simp add: ap w3_def)
qed

lemmas parse_value_num =
  parse_value.simps(2) [of "pred_numeral k" cs, folded numeral_eq_Suc]
  parse_elements.simps(2) [of "pred_numeral k" cs, folded numeral_eq_Suc]
  parse_members.simps(2) [of "pred_numeral k" cs, folded numeral_eq_Suc]
  for k cs

lemma ref_parse_braces: "ref_parse (js ''{}'') = Some (JObj [])"
  by (simp add: ref_parse_def js_def skip_ws_def is_ws_def)


section \<open>Claims about the MessageLogService\<close>

lemma replicate_num: "replicate (numeral k) x = x # replicate (pred_numeral k) x"
  by (simp add: numeral_eq_Suc)

lemmas json_eval = replicate_num json_roundtrip_def demo_platform_def ref_stringify_def
  ref_parse_def messages_json_def record_json_def new_record_def toJSON_def time_clip_def
  toISOString_hello quote_def indent_def js_def skip_ws_def is_ws_def escape_unit_def
  is_high_def is_low_def is_surrogate_def cons_fst_def obj_of_def parse_value_num unescape_def
  no_text_def reread_def

lemma readMessages_missing: "messages_file w = Missing \<Longrightarrow> fst (readMessages L svc w) = Inr []"
  by (simp add: readMessages_def readEncryptedFile_def readFile_def Let_def has_code_def)

lemma appendMessage_returns: "fst (appendMessage L svc iv msg w) = Inr ()"
  by (simp add: appendMessage_def Let_def split: prod.splits sum.splits)


lemma read_path_fails_empty:
  "read_path_fails L svc w \<Longrightarrow> fst (readMessages L svc w) = Inr []"
  by (auto simp: read_path_fails_def readMessages_def readEncryptedFile_def Let_def
      split: sum.splits option.splits)

lemma write_fails_readonly:
  assumes "scrypt_ok L" "length iv = 16" "\<not> writable w"
  shows "fst (writeEncryptedFile L svc iv data w) = Inl IOError"
proof -
  obtain blob where "encrypt L svc iv (JSON_stringify L (messages_json data)) = Inr blob"
    using encrypt_result [OF assms(1,2)] by blast
  then show ?thesis
    using assms(3) by (simp add: writeEncryptedFile_def writeFile_def Let_def)
qed

text \<open>
  Claim C2. Starting from a log that does not exist, appending the message with date
  1700000000 and text \<^verbatim>\<open>'hello'\<close> and then reading returns exactly one record, with the
  text \<^verbatim>\<open>'hello'\<close> and the time value 1700000000000 (the seconds multiplied by 1000),
  which is the instant 2023-11-14T22:13:20.000Z.
\<close>

theorem append_hello_then_read:
  assumes "scrypt_ok L" "aes_ok L" "length iv = 16" "writable w" "messages_file w = Missing"
    and "json_roundtrip L
           (messages_json [new_record \<lparr>msg_date = 1700000000, msg_text = Some (js ''hello'')\<rparr>])"
  shows "fst (readMessages L svc
                (snd (appendMessage L svc iv
                        \<lparr>msg_date = 1700000000, msg_text = Some (js ''hello'')\<rparr> w)))
           = Inr [\<lparr>date = Some 1700000000000, message = Some (JStr (js ''hello''))\<rparr>]
         \<and> toISOString 1700000000000 = js ''2023-11-14T22:13:20.000Z''"
proof -
  have rd: "fst (readMessages L svc w) = Inr []" using assms(5) by (rule readMessages_missing)
  have "fst (readMessages L svc
                (snd (appendMessage L svc iv
                        \<lparr>msg_date = 1700000000, msg_text = Some (js ''hello'')\<rparr> w)))
      = Inr (map reread ([] @ [new_record \<lparr>msg_date = 1700000000, msg_text = Some (js ''hello'')\<rparr>]))"
    using assms(6) by (intro append_then_read(1) [OF assms(1,2,3,4) rd]) simp
  then show ?thesis
    by (simp add: reread_def new_record_def time_clip_def toISOString_hello js_def)
qed

text \<open>Claim C2 on the demonstration platform, from the world without a file.\<close>

theorem append_hello_then_read_witness:
  "json_roundtrip demo_platform
     (messages_json [new_record \<lparr>msg_date = 1700000000, msg_text = Some (js ''hello'')\<rparr>])
   \<and> fst (readMessages demo_platform (new_CryptoService None)
            (snd (appendMessage demo_platform (new_CryptoService None) (replicate 16 7)
                    \<lparr>msg_date = 1700000000, msg_text = Some (js ''hello'')\<rparr> empty_world)))
       = Inr [\<lparr>date = Some 1700000000000, message = Some (JStr (js ''hello''))\<rparr>]
   \<and> toISOString 1700000000000 = js ''2023-11-14T22:13:20.000Z''"
proof -
  have j: "json_roundtrip demo_platform
     (messages_json [new_record \<lparr>msg_date = 1700000000, msg_text = Some (js ''hello'')\<rparr>])"
    by (simp add: json_eval)
  show ?thesis
    using j append_hello_then_read [OF demo_scrypt_ok demo_aes_ok _ _ _ j,
        of "replicate 16 7" empty_world "new_CryptoService None"]
    by (simp add: empty_world_def)
qed



text \<open>
  Claim C10. When the text of the message is absent or is the empty string, the record
  that \<^verbatim>\<open>appendMessage\<close> pushes has the text \<^verbatim>\<open>'No text content'\<close>, and after the append a
  read returns one record more than before, the last one with that text.
\<close>

theorem no_text_sentinel:
  assumes "scrypt_ok L" "aes_ok L" "length iv = 16" "writable w"
    and rd: "fst (readMessages L svc w) = Inr prior"
    and jr: "json_roundtrip L (messages_json (prior @ [new_record msg]))"
    and empty: "msg_text msg = None \<or> msg_text msg = Some []"
  shows "message (new_record msg) = Some (JStr (js ''No text content''))
         \<and> (\<exists>rs. fst (readMessages L svc (snd (appendMessage L svc iv msg w))) = Inr rs
                 \<and> length rs = Suc (length prior)
                 \<and> message (last rs) = Some (JStr (js ''No text content'')))"
proof -
  have m: "message (new_record msg) = Some (JStr (js ''No text content''))"
    using empty by (auto simp: new_record_def no_text_def)
  have "fst (readMessages L svc (snd (appendMessage L svc iv msg w)))
      = Inr (map reread (prior @ [new_record msg]))"
    using append_then_read(1) [OF assms(1,2,3,4) rd jr] .
  moreover have "message (last (map reread (prior @ [new_record msg])))
      = Some (JStr (js ''No text content''))"
    using m by (simp add: reread_def)
  ultimately show ?thesis using m by simp
qed

text \<open>Claim C10 on the demonstration platform, for a message whose text is the empty string.\<close>

theorem no_text_sentinel_witness:
  "message (new_record \<lparr>msg_date = 1700000000, msg_text = Some []\<rparr>)
     = Some (JStr (js ''No text content''))
   \<and> (\<exists>rs. fst (readMessages demo_platform (new_CryptoService None)
                  (snd (appendMessage demo_platform (new_CryptoService None) (replicate 16 7)
                          \<lparr>msg_date = 1700000000, msg_text = Some []\<rparr> empty_world))) = Inr rs
           \<and> length rs = Suc (length ([] :: log_record list))
           \<and> message (last rs) = Some (JStr (js ''No text content'')))"
proof -
  have rd: "fst (readMessages demo_platform (new_CryptoService None) empty_world) = Inr []"
    by (rule readMessages_missing) (simp add: empty_world_def)
  have jr: "json_roundtrip demo_platform
      (messages_json ([] @ [new_record \<lparr>msg_date = 1700000000, msg_text = Some []\<rparr>]))"
    by (simp add: json_eval)
  show ?thesis
    by (rule no_text_sentinel [OF demo_scrypt_ok demo_aes_ok _ _ rd jr])
       (simp_all add: empty_world_def)
qed

text \<open>
  Claim C4 is not met by the code. The file holds the encryption, under the configured
  key, of the JSON text \<^verbatim>\<open>{}\<close>: decryption and \<^verbatim>\<open>JSON.parse\<close> succeed, \<^verbatim>\<open>readEncryptedFile\<close>
  returns the object, and \<^verbatim>\<open>messages?.map(...)\<close> in \<^verbatim>\<open>readMessages\<close> throws a TypeError,
  outside of any \<^verbatim>\<open>try\<close> block, instead of returning the empty array.
\<close>

theorem readMessages_object_TypeError:
  "fst (readMessages demo_platform (new_CryptoService None)
          (world_with demo_platform (new_CryptoService None) (replicate 16 7) (js ''{}'')))
     = Inl TypeError"
proof -
  obtain blob where
    blob: "encrypt demo_platform (new_CryptoService None) (replicate 16 7) (js ''{}'') = Inr blob"
    using encrypt_result [OF demo_scrypt_ok, of "replicate 16 7"] by auto
  define w where
    "w = world_with demo_platform (new_CryptoService None) (replicate 16 7) (js ''{}'')"
  have f: "messages_file w = Content (utf8_encode blob)"
    by (simp add: w_def world_with_def blob)
  have wf: "wellformed (js ''{}'')" by (simp add: js_def is_surrogate_def is_high_def)
  have p: "JSON_parse demo_platform (js ''{}'') = Some (JObj [])"
    by (simp add: demo_platform_def ref_parse_braces)
  have "readEncryptedFile demo_platform (new_CryptoService None) w = (JObj [], w)"
    using read_back [OF demo_scrypt_ok demo_aes_ok _ wf blob f] p by simp
  then show ?thesis
    unfolding w_def [symmetric] by (simp add: readMessages_def)
qed

text \<open>
  Claim C6, as stated, fails: with a file that cannot be written, \<^verbatim>\<open>writeEncryptedFile\<close>
  throws, and \<^verbatim>\<open>appendMessage\<close> catches the error and returns normally.
\<close>

theorem append_swallows_write_error_counterexample:
  "fst (writeEncryptedFile demo_platform (new_CryptoService None) (replicate 16 7)
          [new_record \<lparr>msg_date = 1700000000, msg_text = Some (js ''hello'')\<rparr>]
          (empty_world\<lparr>writable := False\<rparr>)) = Inl IOError
   \<and> fst (appendMessage demo_platform (new_CryptoService None) (replicate 16 7)
            \<lparr>msg_date = 1700000000, msg_text = Some (js ''hello'')\<rparr>
            (empty_world\<lparr>writable := False\<rparr>)) = Inr ()"
  using write_fails_readonly [OF demo_scrypt_ok, of "replicate 16 7"
      "empty_world\<lparr>writable := False\<rparr>" "new_CryptoService None"]
  by (simp add: appendMessage_returns empty_world_def)

text \<open>
  Claim C6, amended: \<^verbatim>\<open>writeEncryptedFile\<close> throws to its caller every error of
  \<^verbatim>\<open>encrypt\<close> and of the write of the file; its caller \<^verbatim>\<open>appendMessage\<close> catches it, logs it
  and returns normally. A failure on the read path (a file that is missing or cannot be
  read, a text that cannot be decrypted or is not JSON) makes the read inside
  \<^verbatim>\<open>appendMessage\<close> return the empty array.
\<close>

theorem write_errors_thrown_then_swallowed:
  "(encrypt L svc iv (JSON_stringify L (messages_json data)) = Inl e
      \<longrightarrow> fst (writeEncryptedFile L svc iv data w) = Inl e)
   \<and> (encrypt L svc iv (JSON_stringify L (messages_json data)) = Inr blob \<and> \<not> writable w
      \<longrightarrow> fst (writeEncryptedFile L svc iv data w) = Inl IOError)
   \<and> fst (appendMessage L svc iv msg w) = Inr ()
   \<and> (fst (readMessages L svc w) = Inr prior
        \<and> fst (writeEncryptedFile L svc iv (prior @ [new_record msg])
                 (snd (readMessages L svc w))) = Inl e'
      \<longrightarrow> LogError ''Error saving message to file:'' e'
            \<in> set (logged (snd (appendMessage L svc iv msg w))))
   \<and> (read_path_fails L svc w \<longrightarrow> fst (readMessages L svc w) = Inr [])"
proof -
  have a: "encrypt L svc iv (JSON_stringify L (messages_json data)) = Inl e
      \<longrightarrow> fst (writeEncryptedFile L svc iv data w) = Inl e"
    by (simp add: writeEncryptedFile_def Let_def)
  have b: "encrypt L svc iv (JSON_stringify L (messages_json data)) = Inr blob \<and> \<not> writable w
      \<longrightarrow> fst (writeEncryptedFile L svc iv data w) = Inl IOError"
    by (simp add: writeEncryptedFile_def writeFile_def Let_def)
  have d: "LogError ''Error saving message to file:'' e'
               \<in> set (logged (snd (appendMessage L svc iv msg w)))"
    if rd: "fst (readMessages L svc w) = Inr prior"
      and wr: "fst (writeEncryptedFile L svc iv (prior @ [new_record msg])
                 (snd (readMessages L svc w))) = Inl e'"
  proof -
    define w1 where "w1 = snd (readMessages L svc w)"
    define w2 where "w2 = snd (writeEncryptedFile L svc iv (prior @ [new_record msg]) w1)"
    have r1: "readMessages L svc w = (Inr prior, w1)"
      using rd by (simp add: w1_def prod_eq_iff)
    have r2: "writeEncryptedFile L svc iv (prior @ [new_record msg]) w1 = (Inl e', w2)"
      using wr by (simp add: w1_def w2_def prod_eq_iff)
    have "appendMessage L svc iv msg w
        = (Inr (), log_error ''Error saving message to file:'' e' w2)"
      by (simp add: appendMessage_def r1 r2 Let_def)
    then show ?thesis
      by (simp add: log_error_def)
  qed
  show ?thesis
    using a b d appendMessage_returns [of L svc iv msg w] read_path_fails_empty [of L svc w]
    by blast
qed

text \<open>
  Claim C6, amended, on the demonstration platform with a file that cannot be read and
  whose write fails after the open.
\<close>

theorem write_errors_thrown_then_swallowed_witness:
  "read_path_fails demo_platform (new_CryptoService None)
     (empty_world\<lparr>messages_file := Unreadable, writable := False, partial_write := Some 0\<rparr>)
   \<and> fst (readMessages demo_platform (new_CryptoService None)
            (empty_world\<lparr>messages_file := Unreadable, writable := False,
               partial_write := Some 0\<rparr>)) = Inr []
   \<and> fst (writeEncryptedFile demo_platform (new_CryptoService None) (replicate 16 7)
            [new_record \<lparr>msg_date = 1700000000, msg_text = None\<rparr>]
            (snd (readMessages demo_platform (new_CryptoService None)
                    (empty_world\<lparr>messages_file := Unreadable, writable := False,
                       partial_write := Some 0\<rparr>)))) = Inl IOError
   \<and> fst (appendMessage demo_platform (new_CryptoService None) (replicate 16 7)
            \<lparr>msg_date = 1700000000, msg_text = None\<rparr>
            (empty_world\<lparr>messages_file := Unreadable, writable := False,
               partial_write := Some 0\<rparr>)) = Inr ()
   \<and> LogError ''Error saving message to file:'' IOError
        \<in> set (logged (snd (appendMessage demo_platform (new_CryptoService None)
                  (replicate 16 7) \<lparr>msg_date = 1700000000, msg_text = None\<rparr>
                  (empty_world\<lparr>messages_file := Unreadable, writable := False,
                     partial_write := Some 0\<rparr>))))"
proof -
  let ?w = "empty_world\<lparr>messages_file := Unreadable, writable := False,
              partial_write := Some 0\<rparr>"
  let ?m = "\<lparr>msg_date = 1700000000, msg_text = None\<rparr>"
  have f: "read_path_fails demo_platform (new_CryptoService None) ?w"
    by (simp add: read_path_fails_def readFile_def)
  have wr: "fst (writeEncryptedFile demo_platform (new_CryptoService None) (replicate 16 7)
            ([] @ [new_record ?m])
            (snd (readMessages demo_platform (new_CryptoService None) ?w))) = Inl IOError"
    by (rule write_fails_readonly [OF demo_scrypt_ok]) (simp_all add: readMessages_world)
  show ?thesis
    using f wr write_errors_thrown_then_swallowed [where L = demo_platform
        and svc = "new_CryptoService None" and iv = "replicate 16 7" and w = ?w and msg = ?m
        and prior = "[]" and e' = IOError]
    by simp
qed

end
